theory Spec2Isabelle
  imports Main "HOL-Library.Word"
begin

unbundle bit_operations_syntax

section \<open>Data model (arena.h)\<close>

text \<open>
  \<open>size_t\<close> is an unsigned 64-bit integer: \<open>+\<close>, \<open>-\<close> and \<open>*\<close> wrap around modulo
  \<open>2 ^ 64\<close>, and \<open><\<close> compares unsigned values.  A non-null pointer to a heap object is
  the address \<open>malloc\<close> returned for it; \<open>NULL\<close> is \<open>None\<close>.
\<close>

type_synonym size_t = "64 word"
type_synonym addr = nat

text \<open>The largest \<open>size_t\<close>, \<open>2 ^ 64 - 1\<close> (\<open>SIZE_MAX\<close> of stdint.h).\<close>

definition SIZE_MAX :: size_t where
  "SIZE_MAX = 18446744073709551615"

text \<open>\<open>struct arena_block_t\<close>; the field \<open>next\<close> is called \<open>nxt\<close> here.\<close>

record arena_block_t =
  data :: "addr option"
  capacity :: size_t
  offset :: size_t
  nxt :: "addr option"

text \<open>\<open>struct arena_t\<close>.\<close>

record arena_t =
  head :: "addr option"
  tail :: "addr option"

text \<open>
  The \<open>void *\<close> that \<open>_arena_alloc\<close> returns is \<open>b->data + offset\<close>: the buffer it points
  into (\<open>base\<close>, the value of \<open>b->data\<close>) and the byte offset added to it (\<open>off\<close>).  Its
  value is the address \<open>ptr_addr\<close>, the sum modulo \<open>2 ^ 64\<close>; a pointer whose address is
  0 is \<open>NULL\<close>.
\<close>

record ptr =
  base :: addr
  off :: size_t

definition ptr_addr :: "ptr \<Rightarrow> nat" where
  "ptr_addr p = (base p + unat (off p)) mod 2 ^ 64"

text \<open>
  The program state: the caller's \<open>struct arena_t\<close> and the two kinds of objects the
  code obtains from \<open>malloc\<close>, each keyed by its address: the live block headers with
  their fields, and the live backing buffers with their sizes.
\<close>

record state =
  arena :: arena_t
  blocks :: "addr \<Rightarrow> arena_block_t option"
  bufs :: "addr \<Rightarrow> size_t option"

section \<open>The system allocator\<close>

text \<open>
  \<open>malloc\<close> is outside the program.  Each call of \<open>_arena_alloc\<close> takes the outcomes
  of the (at most two) \<open>malloc\<close> calls it can make as arguments: \<open>m1\<close> for the block
  header, \<open>m2\<close> for the backing buffer, \<open>None\<close> for a failed call.  The allocator's
  contract is that a returned address is a non-null 64-bit address and not the address of
  a live object; a call may succeed or fail for any size.
\<close>

definition user_addr :: "addr \<Rightarrow> bool" where
  "user_addr p = (0 < p \<and> p < 2 ^ 64)"

definition fresh :: "state \<Rightarrow> addr \<Rightarrow> bool" where
  "fresh s p = (blocks s p = None \<and> bufs s p = None)"

definition malloc_ok :: "state \<Rightarrow> addr option \<Rightarrow> addr option \<Rightarrow> bool" where
  "malloc_ok s m1 m2 =
     (case m1 of None \<Rightarrow> True
      | Some nb \<Rightarrow> user_addr nb \<and> fresh s nb \<and>
          (case m2 of None \<Rightarrow> True | Some d \<Rightarrow> user_addr d \<and> fresh s d \<and> d \<noteq> nb))"

section \<open>arena.c\<close>

definition arena_init :: "state \<Rightarrow> state" where
  "arena_init s = s\<lparr>arena := \<lparr>head = None, tail = None\<rparr>\<rparr>"

text \<open>Line 15: \<open>(b->offset + align - 1) & ~(align - 1)\<close>.\<close>

definition align_up :: "size_t \<Rightarrow> size_t \<Rightarrow> size_t" where
  "align_up x align = (x + align - 1) AND NOT (align - 1)"

text \<open>C's logical negation \<open>!x\<close> of an unsigned value, converted to \<open>size_t\<close>.\<close>

definition lnot :: "size_t \<Rightarrow> size_t" where
  "lnot x = (if x = 0 then 1 else 0)"

text \<open>
  Line 20, the second disjunct: \<open>!offset + size > b->capacity\<close>.  In C the unary \<open>!\<close>
  binds tighter than \<open>+\<close>, which binds tighter than \<open>>\<close>.
\<close>

definition no_room :: "arena_block_t \<Rightarrow> size_t \<Rightarrow> size_t \<Rightarrow> bool" where
  "no_room b offs sz = (lnot offs + sz > capacity b)"

text \<open>Line 24.\<close>

definition new_capacity :: "size_t \<Rightarrow> size_t" where
  "new_capacity sz = (if sz > 4096 then sz else 4096)"

text \<open>
  Lines 49 to 55: the pointer \<open>b->data + offset\<close> and the store \<open>b->offset = offset + size\<close>
  on the block at address \<open>p\<close>.  The pointer is returned as it is computed: when the
  address \<open>b->data + offset\<close> wraps around to 0, what the caller receives is \<open>NULL\<close>, the
  inner \<open>None\<close>, although the offset has been advanced.  The outer \<open>None\<close> is undefined
  behaviour: \<open>p\<close> is not a live block, or its \<open>data\<close> is null.
\<close>

definition returned :: "ptr \<Rightarrow> ptr option" where
  "returned p = (if ptr_addr p = 0 then None else Some p)"

definition bump :: "state \<Rightarrow> addr \<Rightarrow> size_t \<Rightarrow> size_t \<Rightarrow> (ptr option \<times> state) option" where
  "bump s p offs sz =
     (case blocks s p of
        None \<Rightarrow> None
      | Some blk \<Rightarrow>
          (case data blk of
             None \<Rightarrow> None
           | Some d \<Rightarrow>
               Some (returned \<lparr>base = d, off = offs\<rparr>,
                     s\<lparr>blocks := (blocks s)(p \<mapsto> blk\<lparr>offset := offs + sz\<rparr>)\<rparr>)))"

text \<open>
  Lines 21 to 46, then 49 to 55 on the new block: \<open>b\<close> is the old tail.  The \<open>None\<close>
  pointers written out here are the code's two \<open>return NULL\<close>.  The header obtained at
  line 27 has indeterminate fields; no field is read before lines 31 to 37 write it.
\<close>

definition grow :: "state \<Rightarrow> addr option \<Rightarrow> size_t \<Rightarrow> addr option \<Rightarrow> addr option \<Rightarrow>
    (ptr option \<times> state) option" where
  "grow s b sz m1 m2 =
     (case m1 of
        None \<Rightarrow> Some (None, s)
      | Some nb \<Rightarrow>
          let s1 = s\<lparr>blocks := (blocks s)(nb \<mapsto>
                     \<lparr>data = None, capacity = 0, offset = 0, nxt = None\<rparr>)\<rparr>
          in (case m2 of
                None \<Rightarrow> Some (None, s1\<lparr>blocks := (blocks s1)(nb := None)\<rparr>)
              | Some d \<Rightarrow>
                  let s2 = s1\<lparr>bufs := (bufs s1)(d \<mapsto> new_capacity sz)\<rparr>;
                      s3 = s2\<lparr>blocks := (blocks s2)(nb \<mapsto>
                             \<lparr>data = Some d, capacity = new_capacity sz,
                              offset = 0, nxt = None\<rparr>)\<rparr>;
                      s4 = (if head (arena s3) = None
                            then s3\<lparr>arena := (arena s3)\<lparr>head := Some nb\<rparr>\<rparr> else s3)
                  in (case b of
                        None \<Rightarrow> bump (s4\<lparr>arena := (arena s4)\<lparr>tail := Some nb\<rparr>\<rparr>) nb 0 sz
                      | Some p \<Rightarrow>
                          (case blocks s4 p of
                             None \<Rightarrow> None
                           | Some blk \<Rightarrow>
                               let s5 = s4\<lparr>blocks := (blocks s4)(p \<mapsto> blk\<lparr>nxt := Some nb\<rparr>)\<rparr>
                               in bump (s5\<lparr>arena := (arena s5)\<lparr>tail := Some nb\<rparr>\<rparr>)
                                    nb 0 sz))))"

text \<open>
  \<open>_arena_alloc(a, size, align)\<close>.  The outer \<open>None\<close> is undefined behaviour (the tail
  pointer is dangling).
\<close>

definition raw_arena_alloc :: "state \<Rightarrow> size_t \<Rightarrow> size_t \<Rightarrow> addr option \<Rightarrow> addr option \<Rightarrow>
    (ptr option \<times> state) option" where
  "raw_arena_alloc s sz align m1 m2 =
     (case tail (arena s) of
        None \<Rightarrow> grow s None sz m1 m2
      | Some p \<Rightarrow>
          (case blocks s p of
             None \<Rightarrow> None
           | Some b \<Rightarrow>
               let offs = align_up (offset b) align
               in if no_room b offs sz then grow s (Some p) sz m1 m2
                  else bump s p offs sz))"

text \<open>
  The loop of \<open>arena_deinit\<close>, lines 62 to 67.  \<open>None\<close>: the walk reads a block that is
  not live, frees a buffer that is not live, or never ends.  \<open>free(NULL)\<close> does nothing.
\<close>

partial_function (option) free_blocks :: "addr option \<Rightarrow> state \<Rightarrow> state option" where
  "free_blocks b s =
     (case b of
        None \<Rightarrow> Some s
      | Some p \<Rightarrow>
          (case blocks s p of
             None \<Rightarrow> None
           | Some blk \<Rightarrow>
               (case data blk of
                  None \<Rightarrow> free_blocks (nxt blk) (s\<lparr>blocks := (blocks s)(p := None)\<rparr>)
                | Some d \<Rightarrow>
                    (case bufs s d of
                       None \<Rightarrow> None
                     | Some n \<Rightarrow>
                         free_blocks (nxt blk)
                           (s\<lparr>bufs := (bufs s)(d := None),
                              blocks := (blocks s)(p := None)\<rparr>)))))"

declare free_blocks.simps [code]

definition arena_deinit :: "state \<Rightarrow> state option" where
  "arena_deinit s =
     (case free_blocks (head (arena s)) s of
        None \<Rightarrow> None
      | Some s' \<Rightarrow> Some (s'\<lparr>arena := \<lparr>head = None, tail = None\<rparr>\<rparr>))"

text \<open>
  The macros of arena.h: \<open>arena_alloc(a, type)\<close> and \<open>arena_alloc_array(a, type, count)\<close>,
  with \<open>sizeof(type)\<close> and \<open>_Alignof(type)\<close> as arguments.
\<close>

definition arena_alloc :: "state \<Rightarrow> size_t \<Rightarrow> size_t \<Rightarrow> addr option \<Rightarrow> addr option \<Rightarrow>
    (ptr option \<times> state) option" where
  "arena_alloc s sizeof_type alignof_type m1 m2 =
     raw_arena_alloc s sizeof_type alignof_type m1 m2"

definition arena_alloc_array :: "state \<Rightarrow> size_t \<Rightarrow> size_t \<Rightarrow> size_t \<Rightarrow> addr option \<Rightarrow>
    addr option \<Rightarrow> (ptr option \<times> state) option" where
  "arena_alloc_array s sizeof_type alignof_type count m1 m2 =
     raw_arena_alloc s (sizeof_type * count) alignof_type m1 m2"

section \<open>Executions\<close>

text \<open>
  A caller's sequence of operations on one arena.  An \<open>Alloc\<close> carries the arguments
  \<open>size\<close> and \<open>align\<close> and the outcomes of the \<open>malloc\<close> calls that \<open>_arena_alloc\<close> makes
  if it makes them.  \<open>exec\<close> runs the sequence and collects the non-null pointers that the
  \<open>_arena_alloc\<close> calls returned, each with the size asked for, in call order.  It is
  \<open>None\<close> when a step is undefined behaviour or a \<open>malloc\<close> outcome breaks the allocator's
  contract.
\<close>

datatype call = Init | Alloc size_t size_t "addr option" "addr option" | Deinit

type_synonym allocation = "ptr \<times> size_t"

fun step :: "state \<Rightarrow> call \<Rightarrow> (allocation list \<times> state) option" where
  "step s Init = Some ([], arena_init s)"
| "step s (Alloc sz align m1 m2) =
     (if malloc_ok s m1 m2
      then (case raw_arena_alloc s sz align m1 m2 of
              None \<Rightarrow> None
            | Some (None, s') \<Rightarrow> Some ([], s')
            | Some (Some p, s') \<Rightarrow> Some ([(p, sz)], s'))
      else None)"
| "step s Deinit = (case arena_deinit s of None \<Rightarrow> None | Some s' \<Rightarrow> Some ([], s'))"

fun exec :: "state \<Rightarrow> call list \<Rightarrow> (allocation list \<times> state) option" where
  "exec s [] = Some ([], s)"
| "exec s (c # cs) =
     (case step s c of
        None \<Rightarrow> None
      | Some (tr, s') \<Rightarrow>
          (case exec s' cs of None \<Rightarrow> None | Some (tr', s'') \<Rightarrow> Some (tr @ tr', s'')))"

text \<open>A machine with no live heap object, and the states a caller can reach.\<close>

definition heap0 :: state where
  "heap0 = \<lparr>arena = \<lparr>head = None, tail = None\<rparr>, blocks = (\<lambda>_. None), bufs = (\<lambda>_. None)\<rparr>"

definition reachable :: "state \<Rightarrow> bool" where
  "reachable s = (\<exists>s0 cs tr. exec (arena_init s0) cs = Some (tr, s))"

text \<open>
  A power of two that a \<open>size_t\<close> can hold; whether a call is an \<open>_arena_alloc\<close> with
  such an alignment; and what a call asks for, size and alignment together.
\<close>

definition pow2 :: "size_t \<Rightarrow> bool" where
  "pow2 a = (\<exists>k<64. a = 2 ^ k)"

fun alloc_pow2 :: "call \<Rightarrow> bool" where
  "alloc_pow2 (Alloc sz align m1 m2) = pow2 align"
| "alloc_pow2 c = False"

fun request :: "call \<Rightarrow> nat" where
  "request (Alloc sz align m1 m2) = unat sz + unat align"
| "request c = 0"

text \<open>The bytes of an allocation, as offsets into its buffer: \<open>[start, start + size)\<close>.\<close>

definition bytes :: "allocation \<Rightarrow> nat set" where
  "bytes a = {unat (off (fst a)) ..< unat (off (fst a)) + unat (snd a)}"

definition overlap :: "allocation \<Rightarrow> allocation \<Rightarrow> bool" where
  "overlap a b = (base (fst a) = base (fst b) \<and> bytes a \<inter> bytes b \<noteq> {})"

fun pairwise_disjoint :: "allocation list \<Rightarrow> bool" where
  "pairwise_disjoint [] = True"
| "pairwise_disjoint (a # as) = (list_all (\<lambda>b. \<not> overlap a b) as \<and> pairwise_disjoint as)"

section \<open>Line 20 as the code evaluates it, and as the specification words it\<close>

text \<open>
  \<open>must_grow\<close> is the condition of line 20, \<open>!b || !offset + size > b->capacity\<close>, on
  the state before the call.
\<close>

definition must_grow :: "state \<Rightarrow> size_t \<Rightarrow> size_t \<Rightarrow> bool" where
  "must_grow s sz align =
     (case tail (arena s) of
        None \<Rightarrow> True
      | Some p \<Rightarrow>
          (case blocks s p of
             None \<Rightarrow> False
           | Some b \<Rightarrow> no_room b (align_up (offset b) align) sz))"

text \<open>
  The specification's condition for growing: no block exists yet, or the tail block's
  offset rounded up to \<open>align\<close>, plus \<open>size\<close>, exceeds the tail block's capacity.
\<close>

definition spec_must_grow :: "state \<Rightarrow> size_t \<Rightarrow> size_t \<Rightarrow> bool" where
  "spec_must_grow s sz align =
     (case tail (arena s) of
        None \<Rightarrow> True
      | Some p \<Rightarrow>
          (case blocks s p of
             None \<Rightarrow> False
           | Some b \<Rightarrow> unat (capacity b) < unat (align_up (offset b) align) + unat sz))"

section \<open>The block chain\<close>

text \<open>
  \<open>chain B h ps\<close>: following \<open>next\<close> from \<open>h\<close> through the live headers \<open>B\<close> visits
  exactly the addresses \<open>ps\<close> and ends at a null pointer.
\<close>

fun chain :: "(addr \<Rightarrow> arena_block_t option) \<Rightarrow> addr option \<Rightarrow> addr list \<Rightarrow> bool" where
  "chain B h [] = (h = None)"
| "chain B h (p # ps) =
     (h = Some p \<and> (case B p of None \<Rightarrow> False | Some b \<Rightarrow> chain B (nxt b) ps))"

text \<open>The buffer of the block at \<open>p\<close>; a block in good standing owns a live buffer.\<close>

definition buf_of :: "state \<Rightarrow> addr \<Rightarrow> addr option" where
  "buf_of s p = (case blocks s p of None \<Rightarrow> None | Some b \<Rightarrow> data b)"

definition block_ok :: "state \<Rightarrow> addr \<Rightarrow> bool" where
  "block_ok s p =
     (case blocks s p of
        None \<Rightarrow> False
      | Some b \<Rightarrow>
          (case data b of
             None \<Rightarrow> False
           | Some d \<Rightarrow> user_addr d \<and> bufs s d \<noteq> None \<and> 4096 \<le> capacity b))"

text \<open>
  The arena's representation invariant, for the list \<open>ps\<close> of its blocks in order:
  \<open>head\<close> starts the chain, \<open>tail\<close> is its last block, every block owns a live buffer of
  its own, at a non-null address, and has a capacity of at least 4096.
\<close>

definition arena_inv :: "state \<Rightarrow> addr list \<Rightarrow> bool" where
  "arena_inv s ps =
     (chain (blocks s) (head (arena s)) ps \<and>
      tail (arena s) = (if ps = [] then None else Some (last ps)) \<and>
      list_all (block_ok s) ps \<and>
      distinct (map (buf_of s) ps))"

text \<open>
  Bookkeeping for the allocations handed out so far: each lies, without wrap-around, below
  the offset of a block of the chain whose buffer it is based on; no block's offset
  exceeds \<open>n\<close>.
\<close>

definition covered :: "state \<Rightarrow> addr list \<Rightarrow> allocation \<Rightarrow> bool" where
  "covered s ps a =
     (\<exists>p \<in> set ps. \<exists>b. blocks s p = Some b \<and> data b = Some (base (fst a)) \<and>
        unat (off (fst a)) + unat (snd a) \<le> unat (offset b))"

definition used_le :: "state \<Rightarrow> addr list \<Rightarrow> nat \<Rightarrow> bool" where
  "used_le s ps n = (\<forall>p \<in> set ps. \<forall>b. blocks s p = Some b \<longrightarrow> unat (offset b) \<le> n)"

definition trace_inv :: "state \<Rightarrow> addr list \<Rightarrow> allocation list \<Rightarrow> nat \<Rightarrow> bool" where
  "trace_inv s ps tr n =
     (arena_inv s ps \<and> list_all (covered s ps) tr \<and> used_le s ps n \<and> pairwise_disjoint tr)"

section \<open>Example states\<close>

text \<open>
  The state after \<open>arena_init\<close> and one \<open>_arena_alloc(a, 5000, 8)\<close> on a machine with no
  other heap object, when \<open>malloc\<close> returned address 1 for the block header and address 2
  for its buffer.
\<close>

definition one_block :: state where
  "one_block =
     \<lparr>arena = \<lparr>head = Some 1, tail = Some 1\<rparr>,
      blocks = (\<lambda>_. None)(1 \<mapsto> \<lparr>data = Some 2, capacity = 5000, offset = 5000, nxt = None\<rparr>),
      bufs = (\<lambda>_. None)(2 \<mapsto> 5000)\<rparr>"

text \<open>
  The state after \<open>arena_init\<close> and one \<open>_arena_alloc(a, 0, 1)\<close> on the same machine, with
  the same two \<open>malloc\<close> results: one block of 4096 bytes, nothing used.
\<close>

definition unused_block :: state where
  "unused_block =
     \<lparr>arena = \<lparr>head = Some 1, tail = Some 1\<rparr>,
      blocks = (\<lambda>_. None)(1 \<mapsto> \<lparr>data = Some 2, capacity = 4096, offset = 0, nxt = None\<rparr>),
      bufs = (\<lambda>_. None)(2 \<mapsto> 4096)\<rparr>"



text \<open>
  Sixty calls on a fresh arena: \<open>_arena_alloc(a, 1, 1)\<close>, for which \<open>malloc\<close> returns
  address 8 for the block header and address 16 for its 4096-byte buffer, and then
  \<open>_arena_alloc(a, 1, 2 ^ k)\<close> for \<open>k\<close> = 63, 62, ..., 5 in turn.  \<open>far_block\<close> is the state
  after them: still the one block, its offset at \<open>2 ^ 64 - 31\<close>.
\<close>

definition climb :: "call list" where
  "climb = Alloc 1 1 (Some 8) (Some 16) # map (\<lambda>k. Alloc 1 (2 ^ k) None None) (rev [5..<64])"

definition far_block :: state where
  "far_block =
     \<lparr>arena = \<lparr>head = Some 8, tail = Some 8\<rparr>,
      blocks = (\<lambda>_. None)(8 \<mapsto> \<lparr>data = Some 16, capacity = 4096,
                                  offset = 18446744073709551585, nxt = None\<rparr>),
      bufs = (\<lambda>_. None)(16 \<mapsto> 4096)\<rparr>"

section \<open>Rounding up to a power of two\<close>

lemma and_not_mask_diff: "(y::size_t) AND NOT (mask k) = y - take_bit k y"
  by (metis (no_types, lifting) and.left_commute bit.conj_one_right
    bit.conj_xor_distrib2 disjunctive_and_not_eq_xor
    disjunctive_diff_eq_and_not take_bit_eq_mask word_and_not)

lemma align_up_mask: "align_up x (2 ^ k) = (x + mask k) AND NOT (mask k)"
proof -
  have h: "x + 2 ^ k - 1 = x + (2 ^ k - 1)" by (simp add: algebra_simps)
  show ?thesis unfolding align_up_def mask_eq_decr_exp by (simp only: h)
qed

lemma align_up_advance: "align_up x (2 ^ k) - x = mask k - take_bit k (x + mask k)"
  by (simp add: align_up_mask and_not_mask_diff)

lemma take_bit_le_mask: "take_bit k (y::size_t) \<le> mask k"
  by (simp add: take_bit_eq_mask word_and_le1)

lemma unat_mask_less: "unat (mask k :: size_t) < 2 ^ k"
proof -
  have "unat (take_bit k (- 1 :: size_t)) < 2 ^ k"
    by (simp only: unsigned_take_bit_eq take_bit_nat_less_exp)
  then show ?thesis by (simp only: take_bit_minus_one_eq_mask)
qed

lemma unat_pow2_64:
  assumes "k < 64"
  shows "unat (2 ^ k :: size_t) = 2 ^ k"
proof -
  have "unat (2 ^ k :: size_t) = unat (word_of_nat (2 ^ k) :: size_t)" by simp
  also have "\<dots> = take_bit 64 (2 ^ k :: nat)" by (simp only: unsigned_of_nat) simp
  also have "\<dots> = 2 ^ k" using assms by (simp add: take_bit_nat_eq_self)
  finally show ?thesis .
qed

text \<open>The rounding adds less than the alignment, also when the sum wraps around.\<close>

lemma align_up_advance_less: "unat (align_up x (2 ^ k) - x) < 2 ^ k"
proof -
  have "unat (mask k - take_bit k (x + mask k))
      = unat (mask k :: size_t) - unat (take_bit k (x + mask k))"
    by (rule unat_sub) (rule take_bit_le_mask)
  also have "\<dots> \<le> unat (mask k :: size_t)" by simp
  also have "\<dots> < 2 ^ k" by (rule unat_mask_less)
  finally show ?thesis by (simp add: align_up_advance)
qed

text \<open>Without wrap-around the result is the least multiple that is not below \<open>x\<close>.\<close>

lemma align_up_unat:
  assumes "unat x + 2 ^ k \<le> 2 ^ 64"
  shows "unat (align_up x (2 ^ k)) = unat x + unat (align_up x (2 ^ k) - x)"
proof -
  let ?d = "align_up x (2 ^ k) - x"
  have d: "unat ?d < 2 ^ k" by (rule align_up_advance_less)
  have "unat (x + ?d) = unat x + unat ?d"
    by (rule unat_add_lem [THEN iffD1]) (use d assms in simp)
  then show ?thesis by simp
qed

lemma align_up_ge: "unat x + 2 ^ k \<le> 2 ^ 64 \<Longrightarrow> unat x \<le> unat (align_up x (2 ^ k))"
  by (simp add: align_up_unat)

lemma align_up_less:
  "unat x + 2 ^ k \<le> 2 ^ 64 \<Longrightarrow> unat (align_up x (2 ^ k)) < unat x + 2 ^ k"
  using align_up_advance_less [of x k] by (simp add: align_up_unat)

lemma align_up_dvd: "2 ^ k dvd unat (align_up x (2 ^ k))"
proof -
  have "unat (align_up x (2 ^ k)) = unat (x + mask k) - unat (x + mask k) mod 2 ^ k"
    unfolding align_up_mask and_not_mask_diff
    by (metis take_bit_eq_mask take_bit_eq_mod unat_sub unsigned_take_bit_eq word_and_le2)
  then show ?thesis by (simp add: dvd_minus_mod)
qed

lemma align_up_1: "align_up x 1 = x"
  by (simp add: align_up_def)

section \<open>The invariant is kept\<close>

lemma raw_arena_alloc_branches:
  "raw_arena_alloc s sz align m1 m2 =
     (case tail (arena s) of
        None \<Rightarrow> grow s None sz m1 m2
      | Some p \<Rightarrow>
          (case blocks s p of
             None \<Rightarrow> None
           | Some b \<Rightarrow>
               if must_grow s sz align then grow s (Some p) sz m1 m2
               else bump s p (align_up (offset b) align) sz))"
  by (simp add: raw_arena_alloc_def must_grow_def Let_def split: option.splits)

subsection \<open>Chains\<close>

lemma chain_cong:
  "(\<And>p. p \<in> set ps \<Longrightarrow> map_option nxt (B' p) = map_option nxt (B p)) \<Longrightarrow>
   chain B' h ps = chain B h ps"
proof (induction ps arbitrary: h)
  case Nil
  show ?case by simp
next
  case (Cons p ps)
  have eq: "map_option nxt (B' p) = map_option nxt (B p)" by (rule Cons.prems) simp
  have ih: "\<And>h. chain B' h ps = chain B h ps"
    by (rule Cons.IH) (simp add: Cons.prems)
  show ?case
  proof (cases "B p")
    case None
    with eq have "B' p = None" by simp
    with None show ?thesis by simp
  next
    case (Some b)
    with eq obtain b' where b': "B' p = Some b'" "nxt b' = nxt b" by auto
    with Some ih show ?thesis by simp
  qed
qed

lemma chain_live: "chain B h ps \<Longrightarrow> p \<in> set ps \<Longrightarrow> B p \<noteq> None"
  by (induction ps arbitrary: h) (auto split: option.splits)

lemma chain_snoc:
  "chain B h (ps @ [t]) \<Longrightarrow> B t = Some b \<Longrightarrow> distinct (ps @ [t]) \<Longrightarrow> nb \<notin> set (ps @ [t]) \<Longrightarrow>
   nxt nblk = None \<Longrightarrow>
   chain (B(t \<mapsto> b\<lparr>nxt := Some nb\<rparr>, nb \<mapsto> nblk)) h (ps @ [t, nb])"
proof (induction ps arbitrary: h)
  case Nil
  then show ?case by (auto split: option.splits)
next
  case (Cons p ps)
  then show ?case by (auto split: option.splits)
qed

lemma arena_inv_init: "arena_inv (arena_init s) []"
  by (simp add: arena_inv_def arena_init_def)

lemma new_capacity_ge: "4096 \<le> new_capacity sz"
  by (simp add: new_capacity_def less_imp_le)

lemma arena_inv_distinct: "arena_inv s ps \<Longrightarrow> distinct ps"
  by (simp add: arena_inv_def distinct_map)

lemma arena_inv_live: "arena_inv s ps \<Longrightarrow> p \<in> set ps \<Longrightarrow> blocks s p \<noteq> None"
  by (auto simp: arena_inv_def dest: chain_live)

lemma arena_inv_block_ok: "arena_inv s ps \<Longrightarrow> p \<in> set ps \<Longrightarrow> block_ok s p"
  by (simp add: arena_inv_def list_all_iff)

lemma block_okD:
  "block_ok s p \<Longrightarrow> \<exists>b d n. blocks s p = Some b \<and> data b = Some d \<and> bufs s d = Some n \<and> 4096 \<le> capacity b"
  by (auto simp: block_ok_def split: option.splits)

lemma block_ok_addr:
  "block_ok s p \<Longrightarrow> blocks s p = Some b \<Longrightarrow> data b = Some d \<Longrightarrow> user_addr d"
  by (auto simp: block_ok_def split: option.splits)

lemma arena_inv_tail:
  assumes "arena_inv s ps" and "tail (arena s) = Some t"
  shows "ps \<noteq> [] \<and> t = last ps \<and> t \<in> set ps \<and> block_ok s t"
proof -
  from assms have ne: "ps \<noteq> []" and t: "t = last ps"
    by (auto simp: arena_inv_def split: if_splits)
  then have "t \<in> set ps" by simp
  with assms(1) ne t show ?thesis by (simp add: arena_inv_block_ok)
qed

lemma arena_inv_no_tail: "arena_inv s ps \<Longrightarrow> tail (arena s) = None \<Longrightarrow> ps = [] \<and> head (arena s) = None"
  by (auto simp: arena_inv_def split: if_splits)

lemma arena_inv_head: "arena_inv s ps \<Longrightarrow> ps \<noteq> [] \<Longrightarrow> head (arena s) \<noteq> None"
  by (cases ps) (auto simp: arena_inv_def)

subsection \<open>Serving a request from the tail block\<close>

lemma buf_of_offset_upd:
  "blocks s t = Some b \<Longrightarrow>
   buf_of (s\<lparr>blocks := (blocks s)(t \<mapsto> b\<lparr>offset := x\<rparr>)\<rparr>) = buf_of s"
  by (rule ext) (simp add: buf_of_def)

lemma block_ok_offset_upd:
  "blocks s t = Some b \<Longrightarrow>
   block_ok (s\<lparr>blocks := (blocks s)(t \<mapsto> b\<lparr>offset := x\<rparr>)\<rparr>) = block_ok s"
  by (rule ext) (simp add: block_ok_def split: option.splits)

lemma arena_inv_offset_upd:
  assumes "arena_inv s ps" and "blocks s t = Some b"
  shows "arena_inv (s\<lparr>blocks := (blocks s)(t \<mapsto> b\<lparr>offset := x\<rparr>)\<rparr>) ps"
proof -
  have "chain ((blocks s)(t \<mapsto> b\<lparr>offset := x\<rparr>)) (head (arena s)) ps
      = chain (blocks s) (head (arena s)) ps"
    by (rule chain_cong) (simp add: assms(2))
  with assms show ?thesis
    by (simp add: arena_inv_def buf_of_offset_upd block_ok_offset_upd)
qed

lemma alloc_bump:
  assumes inv: "arena_inv s ps" and ng: "\<not> must_grow s sz align"
  shows "\<exists>t b d. tail (arena s) = Some t \<and> blocks s t = Some b \<and> data b = Some d \<and>
           \<not> no_room b (align_up (offset b) align) sz \<and>
           user_addr d \<and>
           raw_arena_alloc s sz align m1 m2 =
             Some (returned \<lparr>base = d, off = align_up (offset b) align\<rparr>,
                   s\<lparr>blocks := (blocks s)(t \<mapsto> b\<lparr>offset := align_up (offset b) align + sz\<rparr>)\<rparr>)"
proof -
  from ng obtain t where t: "tail (arena s) = Some t"
    by (auto simp: must_grow_def split: option.splits)
  with inv have bo: "block_ok s t" by (simp add: arena_inv_tail)
  then obtain b d where b: "blocks s t = Some b" "data b = Some d"
    by (auto dest: block_okD)
  from bo b have ua: "user_addr d" by (rule block_ok_addr)
  from b ng t have nr: "\<not> no_room b (align_up (offset b) align) sz"
    by (simp add: must_grow_def)
  show ?thesis using t b nr ng ua
    by (simp add: raw_arena_alloc_branches bump_def)
qed

subsection \<open>A failed \<open>malloc\<close>\<close>

lemma grow_fail_meta: "grow s b sz None m2 = Some (None, s)"
  by (simp add: grow_def)

lemma grow_fail_buf:
  assumes "fresh s nb"
  shows "grow s b sz (Some nb) None = Some (None, s)"
proof -
  have "(blocks s)(nb := None) = blocks s"
    using assms by (simp add: fresh_def fun_upd_idem)
  then show ?thesis by (simp add: grow_def)
qed

lemma alloc_fail:
  assumes inv: "arena_inv s ps" and g: "must_grow s sz align" and ok: "malloc_ok s m1 m2"
    and f: "m1 = None \<or> m2 = None"
  shows "raw_arena_alloc s sz align m1 m2 = Some (None, s)"
proof -
  have gf: "\<And>b. grow s b sz m1 m2 = Some (None, s)"
  proof (cases m1)
    case None
    then show "\<And>b. grow s b sz m1 m2 = Some (None, s)" by (simp add: grow_fail_meta)
  next
    case (Some nb)
    with f ok have "m2 = None" "fresh s nb" by (auto simp: malloc_ok_def)
    with Some show "\<And>b. grow s b sz m1 m2 = Some (None, s)" by (simp add: grow_fail_buf)
  qed
  show ?thesis
  proof (cases "tail (arena s)")
    case None
    then show ?thesis by (simp add: raw_arena_alloc_branches gf)
  next
    case (Some t)
    with inv have "block_ok s t" by (simp add: arena_inv_tail)
    then obtain b where "blocks s t = Some b" by (auto dest: block_okD)
    with Some g show ?thesis by (simp add: raw_arena_alloc_branches gf)
  qed
qed

subsection \<open>Appending a block\<close>

lemma returned_base: "user_addr d \<Longrightarrow> returned \<lparr>base = d, off = 0\<rparr> = Some \<lparr>base = d, off = 0\<rparr>"
  by (simp add: returned_def ptr_addr_def user_addr_def)

lemma returned_SomeD: "returned p = Some q \<Longrightarrow> q = p \<and> ptr_addr p \<noteq> 0"
  by (simp add: returned_def split: if_splits)

lemma grow_first:
  assumes "head (arena s) = None" and "user_addr d"
  shows "grow s None sz (Some nb) (Some d) =
     Some (Some \<lparr>base = d, off = 0\<rparr>,
           s\<lparr>arena := \<lparr>head = Some nb, tail = Some nb\<rparr>,
             blocks := (blocks s)(nb \<mapsto>
               \<lparr>data = Some d, capacity = new_capacity sz, offset = sz, nxt = None\<rparr>),
             bufs := (bufs s)(d \<mapsto> new_capacity sz)\<rparr>)"
  using assms by (simp add: grow_def bump_def Let_def returned_base)

lemma grow_next:
  assumes "head (arena s) \<noteq> None" and "blocks s t = Some b" and "t \<noteq> nb"
    and "user_addr d"
  shows "grow s (Some t) sz (Some nb) (Some d) =
     Some (Some \<lparr>base = d, off = 0\<rparr>,
           s\<lparr>arena := (arena s)\<lparr>tail := Some nb\<rparr>,
             blocks := (blocks s)(t \<mapsto> b\<lparr>nxt := Some nb\<rparr>, nb \<mapsto>
               \<lparr>data = Some d, capacity = new_capacity sz, offset = sz, nxt = None\<rparr>),
             bufs := (bufs s)(d \<mapsto> new_capacity sz)\<rparr>)"
proof -
  from assms(1) obtain h where "head (arena s) = Some h" by auto
  with assms(2,3,4) show ?thesis
    by (simp add: grow_def bump_def Let_def fun_upd_twist returned_base)
qed

lemma distinct_map_snoc:
  assumes "distinct (map g ps)" and "\<And>p. p \<in> set ps \<Longrightarrow> f p = g p"
    and "\<And>p. p \<in> set ps \<Longrightarrow> g p \<noteq> f q"
  shows "distinct (map f (ps @ [q]))"
proof -
  have e: "map f ps = map g ps" using assms(2) by (induction ps) auto
  have "distinct (map f ps)" unfolding e by (rule assms(1))
  moreover have "f q \<notin> set (map f ps)" unfolding e using assms(3) by fastforce
  ultimately show ?thesis by simp
qed

lemma fresh_not_in_chain:
  assumes "arena_inv s ps" and "fresh s nb"
  shows "nb \<notin> set ps"
proof
  assume "nb \<in> set ps"
  with assms(1) have "blocks s nb \<noteq> None" by (rule arena_inv_live)
  with assms(2) show False by (simp add: fresh_def)
qed

lemma fresh_not_buf:
  assumes "arena_inv s ps" and "fresh s d" and "p \<in> set ps"
  shows "buf_of s p \<noteq> Some d"
proof
  assume e: "buf_of s p = Some d"
  from assms(1,3) have "block_ok s p" by (rule arena_inv_block_ok)
  with e have "bufs s d \<noteq> None"
    by (auto simp: block_ok_def buf_of_def split: option.splits)
  with assms(2) show False by (simp add: fresh_def)
qed

lemma arena_inv_first:
  assumes inv: "arena_inv s []" and ua: "user_addr d"
  shows "arena_inv
           (s\<lparr>arena := \<lparr>head = Some nb, tail = Some nb\<rparr>,
              blocks := (blocks s)(nb \<mapsto>
                \<lparr>data = Some d, capacity = new_capacity sz, offset = sz, nxt = None\<rparr>),
              bufs := (bufs s)(d \<mapsto> new_capacity sz)\<rparr>) [nb]"
  using ua by (simp add: arena_inv_def block_ok_def new_capacity_ge)

lemma arena_inv_next:
  assumes inv: "arena_inv s ps" and ne: "ps \<noteq> []" and b: "blocks s (last ps) = Some b"
    and nb: "fresh s nb" and d: "fresh s d" and ua: "user_addr d"
  shows "arena_inv
           (s\<lparr>arena := (arena s)\<lparr>tail := Some nb\<rparr>,
              blocks := (blocks s)(last ps \<mapsto> b\<lparr>nxt := Some nb\<rparr>, nb \<mapsto>
                \<lparr>data = Some d, capacity = new_capacity sz, offset = sz, nxt = None\<rparr>),
              bufs := (bufs s)(d \<mapsto> new_capacity sz)\<rparr>) (ps @ [nb])"
    (is "arena_inv ?s' _")
proof -
  let ?t = "last ps"
  let ?nblk = "\<lparr>data = Some d, capacity = new_capacity sz, offset = sz, nxt = None\<rparr>"
  from ne obtain qs where qs: "ps = qs @ [?t]" by (metis append_butlast_last_id)
  have dist: "distinct ps" using inv by (rule arena_inv_distinct)
  have nin: "nb \<notin> set ps" using inv nb by (rule fresh_not_in_chain)
  have t_in: "?t \<in> set ps" using ne by simp
  have tnb: "?t \<noteq> nb" using nin t_in by auto
  have ch: "chain (blocks s) (head (arena s)) (qs @ [?t])"
    using inv qs by (simp add: arena_inv_def)
  have "chain ((blocks s)(?t \<mapsto> b\<lparr>nxt := Some nb\<rparr>, nb \<mapsto> ?nblk)) (head (arena s))
          (qs @ [?t, nb])"
    by (rule chain_snoc [OF ch b]) (use dist nin qs in auto)
  then have c': "chain (blocks ?s') (head (arena ?s')) (ps @ [nb])"
    using qs by (metis (no_types, lifting) append.assoc append_Cons append_Nil
        arena_t.select_convs(1) arena_t.surjective arena_t.update_convs(2)
        state.select_convs(1,2) state.surjective state.update_convs(1,2,3))
  have bo: "\<And>p. p \<in> set ps \<Longrightarrow> buf_of ?s' p = buf_of s p"
    using nin b by (auto simp: buf_of_def)
  have ok: "\<And>p. p \<in> set ps \<Longrightarrow> block_ok ?s' p"
  proof -
    fix p assume p: "p \<in> set ps"
    with inv have "block_ok s p" by (rule arena_inv_block_ok)
    with p nin b show "block_ok ?s' p"
      by (auto simp: block_ok_def split: option.splits)
  qed
  have oknb: "block_ok ?s' nb"
    using ua by (simp add: block_ok_def new_capacity_ge)
  have bnb: "buf_of ?s' nb = Some d" by (simp add: buf_of_def)
  have di: "distinct (map (buf_of ?s') (ps @ [nb]))"
  proof (rule distinct_map_snoc [where g = "buf_of s"])
    show "distinct (map (buf_of s) ps)" using inv by (simp add: arena_inv_def)
    show "\<And>p. p \<in> set ps \<Longrightarrow> buf_of ?s' p = buf_of s p" by (rule bo)
    show "\<And>p. p \<in> set ps \<Longrightarrow> buf_of s p \<noteq> buf_of ?s' nb"
      unfolding bnb by (rule fresh_not_buf [OF inv d])
  qed
  show ?thesis
    unfolding arena_inv_def
    using c' ok oknb di by (simp add: list_all_iff)
qed

lemma alloc_grow:
  assumes inv: "arena_inv s ps" and g: "must_grow s sz align"
    and ok: "malloc_ok s (Some nb) (Some d)"
  shows "\<exists>s'. raw_arena_alloc s sz align (Some nb) (Some d) =
                 Some (Some \<lparr>base = d, off = 0\<rparr>, s') \<and>
              arena_inv s' (ps @ [nb]) \<and>
              blocks s' nb =
                Some \<lparr>data = Some d, capacity = new_capacity sz, offset = sz, nxt = None\<rparr> \<and>
              tail (arena s') = Some nb \<and>
              bufs s' = (bufs s)(d \<mapsto> new_capacity sz) \<and>
              (\<forall>p. p \<noteq> nb \<longrightarrow>
                 buf_of s' p = buf_of s p \<and>
                 map_option offset (blocks s' p) = map_option offset (blocks s p) \<and>
                 map_option capacity (blocks s' p) = map_option capacity (blocks s p))"
proof -
  from ok have nb: "fresh s nb" and d: "fresh s d" and ua: "user_addr d"
    by (simp_all add: malloc_ok_def)
  show ?thesis
  proof (cases "tail (arena s)")
    case None
    with inv have e: "ps = []" "head (arena s) = None" by (simp_all add: arena_inv_no_tail)
    from inv e have i: "arena_inv s []" by simp
    show ?thesis
      using None e nb arena_inv_first [OF i ua, where nb = nb and sz = sz]
      by (simp add: raw_arena_alloc_branches grow_first [OF e(2) ua] buf_of_def)
  next
    case (Some t)
    with inv have t: "ps \<noteq> []" "t = last ps" "block_ok s t" by (simp_all add: arena_inv_tail)
    then obtain b where b: "blocks s t = Some b" by (auto dest: block_okD)
    from inv t have h: "head (arena s) \<noteq> None" by (simp add: arena_inv_head)
    have "t \<in> set ps" using t by simp
    with inv nb have tnb: "t \<noteq> nb" by (auto dest: fresh_not_in_chain)
    have b': "blocks s (last ps) = Some b" using b t by simp
    let ?s' = "s\<lparr>arena := (arena s)\<lparr>tail := Some nb\<rparr>,
              blocks := (blocks s)(t \<mapsto> b\<lparr>nxt := Some nb\<rparr>, nb \<mapsto>
                \<lparr>data = Some d, capacity = new_capacity sz, offset = sz, nxt = None\<rparr>),
              bufs := (bufs s)(d \<mapsto> new_capacity sz)\<rparr>"
    have r: "raw_arena_alloc s sz align (Some nb) (Some d) =
               Some (Some \<lparr>base = d, off = 0\<rparr>, ?s')"
      using Some b g by (simp add: raw_arena_alloc_branches grow_next [OF h b tnb ua])
    have i': "arena_inv ?s' (ps @ [nb])"
      using arena_inv_next [OF inv t(1) b' nb d ua, where sz = sz] t(2) by simp
    have fr: "\<forall>p. p \<noteq> nb \<longrightarrow>
                 buf_of ?s' p = buf_of s p \<and>
                 map_option offset (blocks ?s' p) = map_option offset (blocks s p) \<and>
                 map_option capacity (blocks ?s' p) = map_option capacity (blocks s p)"
      using b by (simp add: buf_of_def)
    have "blocks ?s' nb =
            Some \<lparr>data = Some d, capacity = new_capacity sz, offset = sz, nxt = None\<rparr>"
      and "tail (arena ?s') = Some nb" and "bufs ?s' = (bufs s)(d \<mapsto> new_capacity sz)"
      by simp_all
    with r i' fr show ?thesis by blast
  qed
qed

lemma alloc_inv:
  assumes inv: "arena_inv s ps" and ok: "malloc_ok s m1 m2"
  shows "\<exists>r s' ps'. raw_arena_alloc s sz align m1 m2 = Some (r, s') \<and> arena_inv s' ps'"
proof (cases "must_grow s sz align")
  case False
  from alloc_bump [OF inv False, of m1 m2] obtain t b d where
    "blocks s t = Some b"
    "raw_arena_alloc s sz align m1 m2 =
       Some (returned \<lparr>base = d, off = align_up (offset b) align\<rparr>,
             s\<lparr>blocks := (blocks s)(t \<mapsto> b\<lparr>offset := align_up (offset b) align + sz\<rparr>)\<rparr>)"
    by blast
  with arena_inv_offset_upd [OF inv this(1)] show ?thesis by blast
next
  case True
  show ?thesis
  proof (cases "m1 = None \<or> m2 = None")
    case True
    with alloc_fail [OF inv \<open>must_grow s sz align\<close> ok] inv show ?thesis by blast
  next
    case False
    then obtain nb d where m: "m1 = Some nb" "m2 = Some d" by auto
    with alloc_grow [OF inv True, of nb d] ok show ?thesis by blast
  qed
qed

subsection \<open>\<open>arena_deinit\<close> returns\<close>

lemma free_blocks_None [simp]: "free_blocks None s = Some s"
  by (subst free_blocks.simps) simp

lemma free_blocks_Some:
  assumes "blocks s p = Some blk" and "data blk = Some d" and "bufs s d = Some n"
  shows "free_blocks (Some p) s =
           free_blocks (nxt blk) (s\<lparr>bufs := (bufs s)(d := None), blocks := (blocks s)(p := None)\<rparr>)"
  by (subst free_blocks.simps) (simp add: assms)

lemma free_blocks_total:
  "chain (blocks s) h ps \<Longrightarrow> list_all (block_ok s) ps \<Longrightarrow> distinct (map (buf_of s) ps) \<Longrightarrow>
   \<exists>s'. free_blocks h s = Some s' \<and> arena s' = arena s"
proof (induction ps arbitrary: s h)
  case Nil
  then show ?case by simp
next
  case (Cons p qs)
  from Cons.prems(1) obtain blk where h: "h = Some p" and blk: "blocks s p = Some blk"
    and ch: "chain (blocks s) (nxt blk) qs"
    by (auto split: option.splits)
  from Cons.prems(2) have "block_ok s p" by simp
  with blk obtain d n where d: "data blk = Some d" "bufs s d = Some n"
    by (auto dest: block_okD)
  let ?s1 = "s\<lparr>bufs := (bufs s)(d := None), blocks := (blocks s)(p := None)\<rparr>"
  have bp: "buf_of s p = Some d" using blk d by (simp add: buf_of_def)
  from Cons.prems(3) have ni: "buf_of s p \<notin> buf_of s ` set qs"
    and dq: "distinct (map (buf_of s) qs)" by simp_all
  have pq: "p \<notin> set qs" using ni by blast
  have nd: "\<And>q. q \<in> set qs \<Longrightarrow> buf_of s q \<noteq> Some d"
    using ni bp by force
  have c1: "chain (blocks ?s1) (nxt blk) qs"
  proof -
    have "chain ((blocks s)(p := None)) (nxt blk) qs = chain (blocks s) (nxt blk) qs"
      by (rule chain_cong) (use pq in auto)
    with ch show ?thesis by simp
  qed
  have bo: "\<And>q. q \<in> set qs \<Longrightarrow> buf_of ?s1 q = buf_of s q"
    using pq by (auto simp: buf_of_def)
  have ok1: "list_all (block_ok ?s1) qs"
  proof -
    have "\<And>q. q \<in> set qs \<Longrightarrow> block_ok ?s1 q"
    proof -
      fix q assume q: "q \<in> set qs"
      with Cons.prems(2) have "block_ok s q" by (simp add: list_all_iff)
      moreover have "q \<noteq> p" using q pq by auto
      moreover have "buf_of s q \<noteq> Some d" using q by (rule nd)
      ultimately show "block_ok ?s1 q"
        by (auto simp: block_ok_def buf_of_def split: option.splits)
    qed
    then show ?thesis by (simp add: list_all_iff)
  qed
  have d1: "distinct (map (buf_of ?s1) qs)"
  proof -
    have "map (buf_of ?s1) qs = map (buf_of s) qs" using bo by (induction qs) auto
    then show ?thesis using dq by (simp only:)
  qed
  from Cons.IH [OF c1 ok1 d1] obtain s' where "free_blocks (nxt blk) ?s1 = Some s'"
    and "arena s' = arena ?s1" by blast
  then show ?case using h free_blocks_Some [OF blk d] by simp
qed

lemma arena_deinit_total:
  assumes "arena_inv s ps"
  shows "\<exists>s'. arena_deinit s = Some s' \<and> arena s' = \<lparr>head = None, tail = None\<rparr>"
proof -
  from assms have "\<exists>s'. free_blocks (head (arena s)) s = Some s' \<and> arena s' = arena s"
    by (intro free_blocks_total [where ps = ps]) (simp_all add: arena_inv_def)
  then show ?thesis by (auto simp: arena_deinit_def)
qed

lemma arena_inv_empty: "arena s = \<lparr>head = None, tail = None\<rparr> \<Longrightarrow> arena_inv s []"
  by (simp add: arena_inv_def)

lemma arena_deinit_empty:
  assumes "arena s = \<lparr>head = None, tail = None\<rparr>"
  shows "arena_deinit s = Some s"
  using assms by (simp add: arena_deinit_def)

subsection \<open>Reachable states\<close>

lemma step_inv:
  assumes "arena_inv s ps" and "step s c = Some (tr, s')"
  shows "\<exists>ps'. arena_inv s' ps'"
proof (cases c)
  case Init
  with assms(2) have "s' = arena_init s" by simp
  then show ?thesis using arena_inv_init by blast
next
  case (Alloc sz align m1 m2)
  with assms(2) have ok: "malloc_ok s m1 m2" by (simp split: if_splits)
  from alloc_inv [OF assms(1) ok, of sz align] obtain r s'' ps' where
    r: "raw_arena_alloc s sz align m1 m2 = Some (r, s'')" and i: "arena_inv s'' ps'" by blast
  from assms(2) Alloc ok r have "s' = s''" by (cases r) auto
  with i show ?thesis by blast
next
  case Deinit
  from arena_deinit_total [OF assms(1)] obtain s'' where
    "arena_deinit s = Some s''" "arena s'' = \<lparr>head = None, tail = None\<rparr>" by blast
  with assms(2) Deinit have "arena s' = \<lparr>head = None, tail = None\<rparr>" by simp
  then show ?thesis using arena_inv_empty by blast
qed

lemma exec_inv:
  "arena_inv s ps \<Longrightarrow> exec s cs = Some (tr, s') \<Longrightarrow> \<exists>ps'. arena_inv s' ps'"
proof (induction cs arbitrary: s ps tr)
  case Nil
  then show ?case by auto
next
  case (Cons c cs)
  from Cons.prems(2) obtain tr1 s1 tr2 where
    s1: "step s c = Some (tr1, s1)" and e: "exec s1 cs = Some (tr2, s')"
    by (auto split: option.splits)
  from step_inv [OF Cons.prems(1) s1] obtain ps1 where "arena_inv s1 ps1" ..
  then show ?case using e by (rule Cons.IH)
qed

lemma reachable_inv: "reachable s \<Longrightarrow> \<exists>ps. arena_inv s ps"
  unfolding reachable_def using exec_inv [OF arena_inv_init] by blast

lemma exec_one_block:
  "exec (arena_init heap0) [Alloc 5000 8 (Some 1) (Some 2)] =
     Some ([(\<lparr>base = 2, off = 0\<rparr>, 5000)], one_block)"
  by (simp add: heap0_def arena_init_def raw_arena_alloc_def grow_def bump_def returned_def ptr_addr_def malloc_ok_def user_addr_def
      fresh_def new_capacity_def one_block_def Let_def)

lemma reachable_one_block: "reachable one_block"
  unfolding reachable_def using exec_one_block by blast

lemma exec_unused_block:
  "exec (arena_init heap0) [Alloc 0 1 (Some 1) (Some 2)] =
     Some ([(\<lparr>base = 2, off = 0\<rparr>, 0)], unused_block)"
  by (simp add: heap0_def arena_init_def raw_arena_alloc_def grow_def bump_def returned_def ptr_addr_def malloc_ok_def user_addr_def
      fresh_def new_capacity_def unused_block_def Let_def)

lemma reachable_unused_block: "reachable unused_block"
  unfolding reachable_def using exec_unused_block by blast





lemma exec_far_block: "map_option snd (exec (arena_init heap0) climb) = Some far_block"
  by (simp add: climb_def upt_rec_numeral heap0_def arena_init_def raw_arena_alloc_def grow_def
      bump_def returned_def ptr_addr_def malloc_ok_def user_addr_def fresh_def new_capacity_def
      align_up_def no_room_def lnot_def far_block_def Let_def)

lemma reachable_far_block: "reachable far_block"
proof -
  from exec_far_block obtain tr where "exec (arena_init heap0) climb = Some (tr, far_block)"
    by (cases "exec (arena_init heap0) climb") auto
  then show ?thesis unfolding reachable_def by blast
qed

subsection \<open>Where an allocation starts, and sizes against capacities\<close>

lemma alloc_off:
  assumes "raw_arena_alloc s sz align m1 m2 = Some (Some p, s')"
  shows "(must_grow s sz align \<and> off p = 0) \<or>
         (\<not> must_grow s sz align \<and>
          (\<exists>t b. tail (arena s) = Some t \<and> blocks s t = Some b \<and> data b = Some (base p) \<and>
                 off p = align_up (offset b) align))"
proof (cases "must_grow s sz align")
  case True
  have g: "\<And>b. grow s b sz m1 m2 = Some (Some p, s') \<Longrightarrow> off p = 0"
    by (auto simp: grow_def bump_def Let_def split: option.splits if_splits
        dest!: returned_SomeD)
  from assms True show ?thesis
    by (auto simp: raw_arena_alloc_branches split: option.splits dest: g)
next
  case False
  with assms show ?thesis
    by (auto simp: raw_arena_alloc_branches bump_def must_grow_def split: option.splits
        dest!: returned_SomeD)
qed

lemma SIZE_MAX_minus_1: "SIZE_MAX = - 1"
  by (simp add: SIZE_MAX_def)

lemma no_room_size_le:
  assumes "\<not> no_room b offs sz" and "sz \<noteq> SIZE_MAX"
  shows "sz \<le> capacity b"
proof (cases "offs = 0")
  case False
  with assms(1) show ?thesis by (simp add: no_room_def lnot_def not_less)
next
  case True
  with assms(1) have le: "1 + sz \<le> capacity b" by (simp add: no_room_def lnot_def not_less)
  have "sz \<le> 1 + sz" using assms(2) unfolding SIZE_MAX_minus_1
    by (metis add.commute inc_less_eq_triv_imp nle_le)
  with le show ?thesis by simp
qed

lemma max_new_capacity: "new_capacity sz = max sz 4096"
  by (auto simp: new_capacity_def max_def)



subsection \<open>Allocations of one block do not overlap while nothing wraps around\<close>

lemma pairwise_disjoint_snoc:
  "pairwise_disjoint (tr @ [a]) \<longleftrightarrow> pairwise_disjoint tr \<and> (\<forall>b \<in> set tr. \<not> overlap b a)"
  by (induction tr) (auto simp: list_all_iff)

lemma no_overlap_after:
  "unat (off (fst b)) + unat (snd b) \<le> unat (off (fst a)) \<Longrightarrow> \<not> overlap b a"
  by (auto simp: overlap_def bytes_def)

lemma trace_inv_init: "trace_inv (arena_init s) [] [] 0"
  by (simp add: trace_inv_def arena_inv_init used_le_def)

lemma used_le_mono: "used_le s ps n \<Longrightarrow> n \<le> m \<Longrightarrow> used_le s ps m"
  by (fastforce simp: used_le_def)

lemma covered_buf:
  assumes "arena_inv s ps" and "covered s ps a" and "p \<in> set ps" and "blocks s p = Some b"
    and "data b = Some (base (fst a))"
  shows "unat (off (fst a)) + unat (snd a) \<le> unat (offset b)"
proof -
  from assms(2) obtain q c where q: "q \<in> set ps" "blocks s q = Some c"
    "data c = Some (base (fst a))" "unat (off (fst a)) + unat (snd a) \<le> unat (offset c)"
    by (auto simp: covered_def)
  have "buf_of s q = buf_of s p" using q assms(4,5) by (simp add: buf_of_def)
  moreover have "inj_on (buf_of s) (set ps)"
    using assms(1) by (simp add: arena_inv_def distinct_map)
  ultimately have "q = p" using q(1) assms(3) by (auto dest: inj_onD)
  with q assms(4) show ?thesis by simp
qed

lemma covered_not_fresh:
  assumes "arena_inv s ps" and "covered s ps a" and "fresh s d"
  shows "base (fst a) \<noteq> d"
proof -
  from assms(2) obtain q c where q: "q \<in> set ps" "blocks s q = Some c"
    "data c = Some (base (fst a))" by (auto simp: covered_def)
  then have "buf_of s q = Some (base (fst a))" by (simp add: buf_of_def)
  with fresh_not_buf [OF assms(1,3) q(1)] show ?thesis by auto
qed

lemma trace_inv_bump:
  assumes ti: "trace_inv s ps tr n" and ng: "\<not> must_grow s sz align" and p2: "pow2 align"
    and bud: "n + unat sz + unat align < 2 ^ 64"
    and r: "raw_arena_alloc s sz align m1 m2 = Some (r, s')"
  shows "trace_inv s' ps (tr @ (case r of None \<Rightarrow> [] | Some q \<Rightarrow> [(q, sz)]))
           (n + unat sz + unat align)"
proof -
  from ti have inv: "arena_inv s ps" and cov: "list_all (covered s ps) tr"
    and ul: "used_le s ps n" and pd: "pairwise_disjoint tr"
    by (simp_all add: trace_inv_def)
  from p2 obtain k where k: "k < 64" "align = 2 ^ k" by (auto simp: pow2_def)
  have ua: "unat align = 2 ^ k" using k by (simp add: unat_pow2_64)
  from alloc_bump [OF inv ng, of m1 m2] r obtain t b d where
    t: "tail (arena s) = Some t" and b: "blocks s t = Some b" and d: "data b = Some d"
    and r': "r = returned \<lparr>base = d, off = align_up (offset b) align\<rparr>"
    and s': "s' = s\<lparr>blocks := (blocks s)(t \<mapsto> b\<lparr>offset := align_up (offset b) align + sz\<rparr>)\<rparr>"
    by auto
  let ?o = "align_up (offset b) align"
  define q where q: "q = \<lparr>base = d, off = ?o\<rparr>"
  from inv t have tin: "t \<in> set ps" by (simp add: arena_inv_tail)
  from ul tin b have ob: "unat (offset b) \<le> n" by (auto simp: used_le_def)
  have room: "unat (offset b) + 2 ^ k \<le> 2 ^ 64" using ob bud ua by simp
  have ge: "unat (offset b) \<le> unat ?o" using room k by (simp add: align_up_ge)
  have lt: "unat ?o < unat (offset b) + 2 ^ k" using room k by (simp add: align_up_less)
  have "unat ?o + unat sz < 2 ^ 64" using lt ob bud ua by simp
  then have sum: "unat (?o + sz) = unat ?o + unat sz"
    by (simp add: unat_add_lem [THEN iffD1])
  have inv': "arena_inv s' ps" unfolding s' using inv b by (rule arena_inv_offset_upd)
  have cov_old: "\<And>a. covered s ps a \<Longrightarrow> covered s' ps a"
  proof -
    fix a assume "covered s ps a"
    then obtain p c where p: "p \<in> set ps" "blocks s p = Some c"
      "data c = Some (base (fst a))" "unat (off (fst a)) + unat (snd a) \<le> unat (offset c)"
      by (auto simp: covered_def)
    show "covered s' ps a"
    proof (cases "p = t")
      case True
      with p b have "c = b" by simp
      with p True ge sum show ?thesis
        unfolding covered_def s' by (intro bexI [of _ t]) (auto simp: tin)
    next
      case False
      with p show ?thesis unfolding covered_def s' by (intro bexI [of _ p]) auto
    qed
  qed
  have cov_new: "covered s' ps (q, sz)"
    unfolding covered_def s' q using d sum by (intro bexI [of _ t]) (auto simp: tin)
  have ul': "used_le s' ps (n + unat sz + unat align)"
    unfolding used_le_def s'
  proof (intro ballI allI impI)
    fix p c assume p: "p \<in> set ps"
      and c: "blocks (s\<lparr>blocks := (blocks s)(t \<mapsto> b\<lparr>offset := ?o + sz\<rparr>)\<rparr>) p = Some c"
    show "unat (offset c) \<le> n + unat sz + unat align"
    proof (cases "p = t")
      case True
      with c have "offset c = ?o + sz" by auto
      with sum lt ob ua show ?thesis by simp
    next
      case False
      with c have "blocks s p = Some c" by simp
      with ul p have "unat (offset c) \<le> n" by (auto simp: used_le_def)
      then show ?thesis by simp
    qed
  qed
  have no: "\<And>a. a \<in> set tr \<Longrightarrow> \<not> overlap a (q, sz)"
  proof -
    fix a assume a: "a \<in> set tr"
    with cov have ca: "covered s ps a" by (simp add: list_all_iff)
    show "\<not> overlap a (q, sz)"
    proof (cases "base (fst a) = d")
      case False
      then show ?thesis by (simp add: overlap_def q)
    next
      case True
      with d have "data b = Some (base (fst a))" by simp
      from covered_buf [OF inv ca tin b this] ge
      have "unat (off (fst a)) + unat (snd a) \<le> unat (off (fst (q, sz)))" by (simp add: q)
      then show ?thesis by (rule no_overlap_after)
    qed
  qed
  show ?thesis
  proof (cases r)
    case None
    then show ?thesis
      unfolding trace_inv_def using inv' cov cov_old ul' pd by (simp add: list_all_iff)
  next
    case (Some q')
    with r' have "returned \<lparr>base = d, off = ?o\<rparr> = Some q'" by simp
    then have "q' = q" unfolding q by (simp add: returned_SomeD)
    with Some show ?thesis
      unfolding trace_inv_def
      using inv' cov cov_old cov_new ul' pd no
      by (simp add: list_all_iff pairwise_disjoint_snoc)
  qed
qed

lemma trace_inv_grow:
  assumes ti: "trace_inv s ps tr n" and g: "must_grow s sz align"
    and ok: "malloc_ok s (Some nb) (Some d)"
    and r: "raw_arena_alloc s sz align (Some nb) (Some d) = Some (Some q, s')"
  shows "trace_inv s' (ps @ [nb]) (tr @ [(q, sz)]) (n + unat sz + unat align)"
proof -
  from ti have inv: "arena_inv s ps" and cov: "list_all (covered s ps) tr"
    and ul: "used_le s ps n" and pd: "pairwise_disjoint tr"
    by (simp_all add: trace_inv_def)
  from ok have fnb: "fresh s nb" and fd: "fresh s d" by (simp_all add: malloc_ok_def)
  from alloc_grow [OF inv g ok] r have
    q: "q = \<lparr>base = d, off = 0\<rparr>" and inv': "arena_inv s' (ps @ [nb])"
    and nblk: "blocks s' nb =
          Some \<lparr>data = Some d, capacity = new_capacity sz, offset = sz, nxt = None\<rparr>"
    and fr: "\<And>p. p \<noteq> nb \<Longrightarrow> buf_of s' p = buf_of s p \<and>
                 map_option offset (blocks s' p) = map_option offset (blocks s p)"
    by auto
  have nin: "nb \<notin> set ps" using inv fnb by (rule fresh_not_in_chain)
  have old: "\<And>p c. p \<in> set ps \<Longrightarrow> blocks s p = Some c \<Longrightarrow>
               \<exists>c'. blocks s' p = Some c' \<and> data c' = data c \<and> offset c' = offset c"
  proof -
    fix p c assume p: "p \<in> set ps" and c: "blocks s p = Some c"
    with nin have "p \<noteq> nb" by auto
    from fr [OF this] c show "\<exists>c'. blocks s' p = Some c' \<and> data c' = data c \<and> offset c' = offset c"
      by (cases "blocks s' p") (auto simp: buf_of_def)
  qed
  have old': "\<And>p c'. p \<in> set ps \<Longrightarrow> blocks s' p = Some c' \<Longrightarrow>
               \<exists>c. blocks s p = Some c \<and> offset c' = offset c"
  proof -
    fix p c' assume p: "p \<in> set ps" and c: "blocks s' p = Some c'"
    with nin have "p \<noteq> nb" by auto
    from fr [OF this] c show "\<exists>c. blocks s p = Some c \<and> offset c' = offset c"
      by (cases "blocks s p") auto
  qed
  have cov_old: "\<And>a. covered s ps a \<Longrightarrow> covered s' (ps @ [nb]) a"
  proof -
    fix a assume "covered s ps a"
    then obtain p c where p: "p \<in> set ps" "blocks s p = Some c"
      "data c = Some (base (fst a))" "unat (off (fst a)) + unat (snd a) \<le> unat (offset c)"
      by (auto simp: covered_def)
    from old [OF p(1,2)] obtain c' where "blocks s' p = Some c'" "data c' = data c"
      "offset c' = offset c" by blast
    with p show "covered s' (ps @ [nb]) a"
      unfolding covered_def by (intro bexI [of _ p]) auto
  qed
  have cov_new: "covered s' (ps @ [nb]) (q, sz)"
    unfolding covered_def q using nblk by (intro bexI [of _ nb]) auto
  have ul': "used_le s' (ps @ [nb]) (n + unat sz + unat align)"
    unfolding used_le_def
  proof (intro ballI allI impI)
    fix p c assume p: "p \<in> set (ps @ [nb])" and c: "blocks s' p = Some c"
    show "unat (offset c) \<le> n + unat sz + unat align"
    proof (cases "p = nb")
      case True
      with c nblk show ?thesis by auto
    next
      case False
      with p have pin: "p \<in> set ps" by simp
      from old' [OF pin c] obtain c0 where "blocks s p = Some c0" "offset c = offset c0" by blast
      with ul pin have "unat (offset c) \<le> n" by (auto simp: used_le_def)
      then show ?thesis by simp
    qed
  qed
  have no: "\<And>a. a \<in> set tr \<Longrightarrow> \<not> overlap a (q, sz)"
  proof -
    fix a assume a: "a \<in> set tr"
    with cov have ca: "covered s ps a" by (simp add: list_all_iff)
    from covered_not_fresh [OF inv ca fd] show "\<not> overlap a (q, sz)"
      by (simp add: overlap_def q)
  qed
  show ?thesis
    unfolding trace_inv_def
    using inv' cov cov_old cov_new ul' pd no
    by (simp add: list_all_iff pairwise_disjoint_snoc)
qed

lemma trace_inv_mono: "trace_inv s ps tr n \<Longrightarrow> n \<le> m \<Longrightarrow> trace_inv s ps tr m"
  by (auto simp: trace_inv_def intro: used_le_mono)

lemma trace_inv_step:
  assumes ti: "trace_inv s ps tr n" and c: "alloc_pow2 c"
    and bud: "n + request c < 2 ^ 64" and st: "step s c = Some (tr1, s')"
  shows "\<exists>ps'. trace_inv s' ps' (tr @ tr1) (n + request c)"
proof -
  from c obtain sz align m1 m2 where a: "c = Alloc sz align m1 m2" and p2: "pow2 align"
    by (cases c) auto
  from st a have ok: "malloc_ok s m1 m2" by (simp split: if_splits)
  from ti have inv: "arena_inv s ps" by (simp add: trace_inv_def)
  have bud': "n + unat sz + unat align < 2 ^ 64" using bud a by simp
  have rq: "n + request c = n + unat sz + unat align" using a by simp
  show ?thesis
  proof (cases "must_grow s sz align")
    case False
    from alloc_bump [OF inv False, of m1 m2] obtain r s1 where
      r: "raw_arena_alloc s sz align m1 m2 = Some (r, s1)" by blast
    with st a ok have e: "tr1 = (case r of None \<Rightarrow> [] | Some q \<Rightarrow> [(q, sz)])" "s' = s1"
      by (auto split: option.splits)
    from trace_inv_bump [OF ti False p2 bud' r] show ?thesis unfolding rq e by blast
  next
    case True
    show ?thesis
    proof (cases "m1 = None \<or> m2 = None")
      case True
      from alloc_fail [OF inv \<open>must_grow s sz align\<close> ok True] st a ok
      have "tr1 = []" "s' = s" by auto
      with trace_inv_mono [OF ti, of "n + request c"] show ?thesis by auto
    next
      case False
      then obtain nb d where m: "m1 = Some nb" "m2 = Some d" by auto
      from alloc_grow [OF inv True, of nb d] ok m obtain s1 where
        r: "raw_arena_alloc s sz align (Some nb) (Some d) = Some (Some \<lparr>base = d, off = 0\<rparr>, s1)"
        by blast
      with st a ok m have e: "tr1 = [(\<lparr>base = d, off = 0\<rparr>, sz)]" "s' = s1" by auto
      from ok m have ok': "malloc_ok s (Some nb) (Some d)" by simp
      from trace_inv_grow [OF ti True ok' r] show ?thesis unfolding rq e by blast
    qed
  qed
qed

lemma trace_inv_exec:
  "trace_inv s ps tr0 n \<Longrightarrow> list_all alloc_pow2 cs \<Longrightarrow> n + sum_list (map request cs) < 2 ^ 64 \<Longrightarrow>
   exec s cs = Some (tr, s') \<Longrightarrow>
   \<exists>ps'. trace_inv s' ps' (tr0 @ tr) (n + sum_list (map request cs))"
proof (induction cs arbitrary: s ps tr0 n tr)
  case Nil
  then show ?case by auto
next
  case (Cons c cs)
  from Cons.prems(4) obtain tr1 s1 tr2 where
    s1: "step s c = Some (tr1, s1)" and e: "exec s1 cs = Some (tr2, s')" and tr: "tr = tr1 @ tr2"
    by (auto split: option.splits)
  from Cons.prems(2) have c: "alloc_pow2 c" and cs: "list_all alloc_pow2 cs" by simp_all
  from Cons.prems(3) have b1: "n + request c < 2 ^ 64"
    and b2: "n + request c + sum_list (map request cs) < 2 ^ 64" by simp_all
  from trace_inv_step [OF Cons.prems(1) c b1 s1] obtain ps1 where
    "trace_inv s1 ps1 (tr0 @ tr1) (n + request c)" ..
  from Cons.IH [OF this cs b2 e] show ?case by (simp add: tr add.assoc)
qed

lemma pairwise_disjoint_nth:
  "pairwise_disjoint tr \<Longrightarrow> i < j \<Longrightarrow> j < length tr \<Longrightarrow> \<not> overlap (tr ! i) (tr ! j)"
proof (induction tr arbitrary: i j)
  case Nil
  then show ?case by simp
next
  case (Cons a tr)
  from Cons.prems(2) obtain j' where j: "j = Suc j'" by (cases j) auto
  show ?case
  proof (cases i)
    case 0
    from Cons.prems(1,3) j have "\<not> overlap a (tr ! j')" by (simp add: list_all_length)
    with 0 j show ?thesis by simp
  next
    case (Suc i')
    with Cons.prems j have "\<not> overlap (tr ! i') (tr ! j')" by (intro Cons.IH) simp_all
    with Suc j show ?thesis by simp
  qed
qed

lemma pairwise_disjoint_bytes:
  assumes "pairwise_disjoint tr" and "i < length tr" and "j < length tr" and "i \<noteq> j"
    and "base (fst (tr ! i)) = base (fst (tr ! j))"
  shows "bytes (tr ! i) \<inter> bytes (tr ! j) = {}"
proof (cases "i < j")
  case True
  from pairwise_disjoint_nth [OF assms(1) True assms(3)] assms(5) show ?thesis
    by (simp add: overlap_def)
next
  case False
  with assms(4) have "j < i" by simp
  from pairwise_disjoint_nth [OF assms(1) this assms(2)] assms(5) show ?thesis
    by (simp add: overlap_def Int_commute)
qed

text \<open>
  What a call that meets no \<open>malloc\<close> failure does: it serves the request from the buffer
  of the block that is the tail afterwards, and the pointer it returns, if not \<open>NULL\<close>, is
  based on that buffer; a block it creates has capacity \<open>max size 4096\<close>, and the pointer
  is then the start of the new buffer.
\<close>

lemma alloc_success_block:
  assumes "reachable s" and "malloc_ok s m1 m2"
    and "must_grow s sz align \<longrightarrow> m1 \<noteq> None \<and> m2 \<noteq> None"
  shows "\<exists>r s' t b d. raw_arena_alloc s sz align m1 m2 = Some (r, s') \<and>
           tail (arena s') = Some t \<and> blocks s' t = Some b \<and> data b = Some d \<and>
           (\<forall>p. r = Some p \<longrightarrow> base p = d) \<and>
           (must_grow s sz align \<longrightarrow>
              r = Some \<lparr>base = d, off = 0\<rparr> \<and>
              m1 = Some t \<and> blocks s t = None \<and> capacity b = max sz 4096) \<and>
           (4096 < sz \<and> sz \<noteq> SIZE_MAX \<longrightarrow> sz \<le> capacity b)"
proof -
  from assms(1) obtain ps where inv: "arena_inv s ps" by (auto dest: reachable_inv)
  show ?thesis
  proof (cases "must_grow s sz align")
    case False
    from alloc_bump [OF inv False, of m1 m2] obtain t b d where
      t: "tail (arena s) = Some t" "blocks s t = Some b" "data b = Some d"
      and nr: "\<not> no_room b (align_up (offset b) align) sz"
      and r: "raw_arena_alloc s sz align m1 m2 =
             Some (returned \<lparr>base = d, off = align_up (offset b) align\<rparr>,
                   s\<lparr>blocks := (blocks s)(t \<mapsto> b\<lparr>offset := align_up (offset b) align + sz\<rparr>)\<rparr>)"
      by blast
    have "sz \<noteq> SIZE_MAX \<Longrightarrow> sz \<le> capacity b" using nr by (rule no_room_size_le)
    with False t r show ?thesis by (auto dest: returned_SomeD)
  next
    case True
    with assms(3) obtain nb d where m: "m1 = Some nb" "m2 = Some d" by auto
    from assms(2) m have "blocks s nb = None" by (simp add: malloc_ok_def user_addr_def fresh_def)
    with alloc_grow [OF inv True, of nb d] assms(2) m True show ?thesis
      by (auto simp: max_new_capacity)
  qed
qed

section \<open>Claims\<close>

text \<open>
  C1.  The claim does not hold of the code.  Line 20 tests \<open>!offset + size > b->capacity\<close>,
  where \<open>!offset\<close> is 1 for a zero offset and 0 otherwise, and not
  \<open>offset + size > b->capacity\<close>.  With a tail block of capacity 5000 and offset 5000, a
  request of 8 bytes aligned to 8 has candidate offset 5000 and \<open>5000 + 8 > 5000\<close>, yet no
  block is created: the request is served from the tail block at offset 5000.  In the
  other direction, with an unused tail block of capacity 4096 a request of 4096 bytes
  fits (\<open>0 + 4096 > 4096\<close> is false), yet the code creates a block.
\<close>

theorem full_tail_served_in_place:
  "reachable one_block \<and> malloc_ok one_block (Some 3) (Some 4) \<and>
   spec_must_grow one_block 8 8 \<and> \<not> must_grow one_block 8 8 \<and>
   raw_arena_alloc one_block 8 8 (Some 3) (Some 4) =
     Some (Some \<lparr>base = 2, off = 5000\<rparr>,
           one_block\<lparr>blocks := (blocks one_block)(1 \<mapsto>
             \<lparr>data = Some 2, capacity = 5000, offset = 5008, nxt = None\<rparr>)\<rparr>) \<and>
   reachable unused_block \<and>
   \<not> spec_must_grow unused_block 4096 1 \<and> must_grow unused_block 4096 1"
proof -
  have ok: "malloc_ok one_block (Some 3) (Some 4)"
    by (simp add: malloc_ok_def user_addr_def fresh_def one_block_def)
  have sg: "spec_must_grow one_block 8 8"
    by (simp add: spec_must_grow_def one_block_def align_up_def)
  have g: "\<not> must_grow one_block 8 8"
    by (simp add: must_grow_def one_block_def no_room_def lnot_def align_up_def)
  have r: "raw_arena_alloc one_block 8 8 (Some 3) (Some 4) =
     Some (Some \<lparr>base = 2, off = 5000\<rparr>,
           one_block\<lparr>blocks := (blocks one_block)(1 \<mapsto>
             \<lparr>data = Some 2, capacity = 5000, offset = 5008, nxt = None\<rparr>)\<rparr>)"
    by (simp add: raw_arena_alloc_def one_block_def bump_def returned_def ptr_addr_def align_up_def no_room_def lnot_def)
  have sg': "\<not> spec_must_grow unused_block 4096 1"
    by (simp add: spec_must_grow_def unused_block_def align_up_def)
  have g': "must_grow unused_block 4096 1"
    by (simp add: must_grow_def unused_block_def no_room_def lnot_def align_up_def)
  from reachable_one_block ok sg g r reachable_unused_block sg' g' show ?thesis
    by (simp only: simp_thms)
qed

text \<open>
  C2.  The claim does not hold of the code, by the same test of line 20.  After
  \<open>arena_init\<close>, \<open>_arena_alloc(a, 5000, 8)\<close> and \<open>_arena_alloc(a, 8, 8)\<close>, the one block
  has capacity 5000 and offset 5008.
\<close>

theorem offset_exceeds_capacity:
  "exec (arena_init heap0) [Alloc 5000 8 (Some 1) (Some 2), Alloc 8 8 (Some 3) (Some 4)] =
     Some ([(\<lparr>base = 2, off = 0\<rparr>, 5000), (\<lparr>base = 2, off = 5000\<rparr>, 8)],
           one_block\<lparr>blocks := (blocks one_block)(1 \<mapsto>
             \<lparr>data = Some 2, capacity = 5000, offset = 5008, nxt = None\<rparr>)\<rparr>) \<and>
   (5000 :: size_t) < 5008"
  by (simp add: heap0_def arena_init_def raw_arena_alloc_def grow_def bump_def returned_def ptr_addr_def malloc_ok_def user_addr_def
      fresh_def new_capacity_def one_block_def align_up_def no_room_def lnot_def Let_def)

text \<open>
  C3.  The claim does not hold of the code, by the same test of line 20.  After
  \<open>arena_init\<close> and \<open>_arena_alloc(a, 5000, 8)\<close>, the call \<open>_arena_alloc(a, 8, 8)\<close> creates no
  second block: it calls \<open>malloc\<close> for neither header nor buffer (addresses 3 and 4 stay
  unused), \<open>tail\<close> is still the first block, and the address it returns is in the first
  block's buffer, 5000 bytes from its base.
\<close>

theorem second_alloc_same_block:
  "exec (arena_init heap0) [Alloc 5000 8 (Some 1) (Some 2), Alloc 8 8 (Some 3) (Some 4)] =
     Some ([(\<lparr>base = 2, off = 0\<rparr>, 5000), (\<lparr>base = 2, off = 5000\<rparr>, 8)],
           one_block\<lparr>blocks := (blocks one_block)(1 \<mapsto>
             \<lparr>data = Some 2, capacity = 5000, offset = 5008, nxt = None\<rparr>)\<rparr>) \<and>
   tail (arena (one_block\<lparr>blocks := (blocks one_block)(1 \<mapsto>
             \<lparr>data = Some 2, capacity = 5000, offset = 5008, nxt = None\<rparr>)\<rparr>)) = Some 1 \<and>
   blocks (one_block\<lparr>blocks := (blocks one_block)(1 \<mapsto>
             \<lparr>data = Some 2, capacity = 5000, offset = 5008, nxt = None\<rparr>)\<rparr>) 3 = None \<and>
   bufs (one_block\<lparr>blocks := (blocks one_block)(1 \<mapsto>
             \<lparr>data = Some 2, capacity = 5000, offset = 5008, nxt = None\<rparr>)\<rparr>) 4 = None"
  by (simp add: heap0_def arena_init_def raw_arena_alloc_def grow_def bump_def returned_def ptr_addr_def malloc_ok_def user_addr_def
      fresh_def new_capacity_def one_block_def align_up_def no_room_def lnot_def Let_def)

text \<open>
  C4, as amended.  Take any sequence of \<open>_arena_alloc\<close> calls with power-of-two alignments
  on a freshly initialised arena, with \<open>malloc\<close> results that respect the allocator's
  contract, whose sizes and alignments add up to less than \<open>2 ^ 64\<close>, so that no offset
  computation wraps around.  Then the byte ranges \<open>[start, start + size)\<close> of any two of
  the returned allocations that are based on the same buffer are disjoint.

  Without the bound the claim fails, in two ways.  A first allocation of \<open>2 ^ 63 + 1\<close>
  bytes fills a block of that capacity; for a zero-byte allocation with \<open>align = 2 ^ 63\<close>
  the rounding \<open>(2 ^ 63 + 1 + align - 1) & ~(align - 1)\<close> wraps around to 0, which becomes
  the block's offset; a one-byte allocation is then served at offset 0, the start of the
  first.  This does not depend on how line 20 tests the capacity.  With blocks of 4096
  bytes the same wrap-around is reached through line 20 as it is written: after a
  one-byte allocation, a second one with \<open>align = 2 ^ 63\<close> is served from the same block at
  offset \<open>2 ^ 63\<close>, and the rounding for a third wraps around to offset 0.
\<close>

theorem allocations_disjoint:
  assumes "exec (arena_init s0) cs = Some (tr, s)" and "list_all alloc_pow2 cs"
    and "sum_list (map request cs) < 2 ^ 64"
  shows "pairwise_disjoint tr \<and>
         (\<forall>i j. i < length tr \<and> j < length tr \<and> i \<noteq> j \<and>
                base (fst (tr ! i)) = base (fst (tr ! j)) \<longrightarrow>
                bytes (tr ! i) \<inter> bytes (tr ! j) = {})"
proof -
  from trace_inv_exec [OF trace_inv_init assms(2) _ assms(1)] assms(3)
  obtain ps where "trace_inv s ps tr (sum_list (map request cs))" by auto
  then have "pairwise_disjoint tr" by (simp add: trace_inv_def)
  then show ?thesis by (simp add: pairwise_disjoint_bytes)
qed

theorem allocations_disjoint_witness:
  "exec (arena_init heap0) [Alloc 5000 8 (Some 1) (Some 2), Alloc 3 1 None None] =
     Some ([(\<lparr>base = 2, off = 0\<rparr>, 5000), (\<lparr>base = 2, off = 5000\<rparr>, 3)],
           one_block\<lparr>blocks := (blocks one_block)(1 \<mapsto>
             \<lparr>data = Some 2, capacity = 5000, offset = 5003, nxt = None\<rparr>)\<rparr>) \<and>
   list_all alloc_pow2 [Alloc 5000 8 (Some 1) (Some 2), Alloc 3 1 None None] \<and>
   sum_list (map request [Alloc 5000 8 (Some 1) (Some 2), Alloc 3 1 None None]) < 2 ^ 64 \<and>
   pairwise_disjoint [(\<lparr>base = 2, off = 0\<rparr>, 5000), (\<lparr>base = 2, off = 5000\<rparr>, 3)] \<and>
   bytes (\<lparr>base = 2, off = 0\<rparr>, 5000) \<inter> bytes (\<lparr>base = 2, off = 5000\<rparr>, 3) = {}"
proof -
  let ?cs = "[Alloc 5000 8 (Some 1) (Some 2), Alloc 3 1 None None]"
  have e: "exec (arena_init heap0) ?cs =
     Some ([(\<lparr>base = 2, off = 0\<rparr>, 5000), (\<lparr>base = 2, off = 5000\<rparr>, 3)],
           one_block\<lparr>blocks := (blocks one_block)(1 \<mapsto>
             \<lparr>data = Some 2, capacity = 5000, offset = 5003, nxt = None\<rparr>)\<rparr>)"
    by (simp add: heap0_def arena_init_def raw_arena_alloc_def grow_def bump_def returned_def ptr_addr_def malloc_ok_def user_addr_def
        fresh_def new_capacity_def one_block_def align_up_def no_room_def lnot_def Let_def)
  have p8: "pow2 8" unfolding pow2_def by (rule exI [of _ 3]) simp
  have p1: "pow2 1" unfolding pow2_def by (rule exI [of _ 0]) simp
  have p: "list_all alloc_pow2 ?cs" using p8 p1 by simp
  have b: "sum_list (map request ?cs) < 2 ^ 64" by simp
  from allocations_disjoint [OF e p b]
  have d: "pairwise_disjoint [(\<lparr>base = 2, off = 0\<rparr>, 5000), (\<lparr>base = 2, off = 5000\<rparr>, 3)]"
    by (rule conjunct1)
  then have i: "bytes (\<lparr>base = 2, off = 0\<rparr>, 5000) \<inter> bytes (\<lparr>base = 2, off = 5000\<rparr>, 3) = {}"
    by (simp add: overlap_def)
  from e p b d i show ?thesis by (simp only: simp_thms)
qed

theorem allocations_overlap:
  "list_all alloc_pow2
     [Alloc 9223372036854775809 1 (Some 1) (Some 2), Alloc 0 9223372036854775808 None None,
      Alloc 1 1 None None] \<and>
   map_option fst (exec (arena_init heap0)
     [Alloc 9223372036854775809 1 (Some 1) (Some 2), Alloc 0 9223372036854775808 None None,
      Alloc 1 1 None None]) =
     Some [(\<lparr>base = 2, off = 0\<rparr>, 9223372036854775809), (\<lparr>base = 2, off = 0\<rparr>, 0),
           (\<lparr>base = 2, off = 0\<rparr>, 1)] \<and>
   \<not> pairwise_disjoint
     [(\<lparr>base = 2, off = 0\<rparr>, 9223372036854775809), (\<lparr>base = 2, off = 0\<rparr>, 0),
      (\<lparr>base = 2, off = 0\<rparr>, 1)] \<and>
   bytes (\<lparr>base = 2, off = 0\<rparr>, 9223372036854775809) \<inter> bytes (\<lparr>base = 2, off = 0\<rparr>, 1) = {0} \<and>
   list_all alloc_pow2
     [Alloc 1 1 (Some 1) (Some 2), Alloc 1 9223372036854775808 None None,
      Alloc 1 9223372036854775808 None None] \<and>
   map_option fst (exec (arena_init heap0)
     [Alloc 1 1 (Some 1) (Some 2), Alloc 1 9223372036854775808 None None,
      Alloc 1 9223372036854775808 None None]) =
     Some [(\<lparr>base = 2, off = 0\<rparr>, 1), (\<lparr>base = 2, off = 9223372036854775808\<rparr>, 1),
           (\<lparr>base = 2, off = 0\<rparr>, 1)] \<and>
   \<not> pairwise_disjoint
     [(\<lparr>base = 2, off = 0\<rparr>, 1), (\<lparr>base = 2, off = 9223372036854775808\<rparr>, 1),
      (\<lparr>base = 2, off = 0\<rparr>, 1)]"
proof -
  have p63: "pow2 9223372036854775808" unfolding pow2_def by (rule exI [of _ 63]) simp
  have p1: "pow2 1" unfolding pow2_def by (rule exI [of _ 0]) simp
  have a: "list_all alloc_pow2
     [Alloc 9223372036854775809 1 (Some 1) (Some 2), Alloc 0 9223372036854775808 None None,
      Alloc 1 1 None None]" using p63 p1 by simp
  have e: "map_option fst (exec (arena_init heap0)
     [Alloc 9223372036854775809 1 (Some 1) (Some 2), Alloc 0 9223372036854775808 None None,
      Alloc 1 1 None None]) =
     Some [(\<lparr>base = 2, off = 0\<rparr>, 9223372036854775809), (\<lparr>base = 2, off = 0\<rparr>, 0),
           (\<lparr>base = 2, off = 0\<rparr>, 1)]"
    by (simp add: heap0_def arena_init_def raw_arena_alloc_def grow_def bump_def returned_def ptr_addr_def malloc_ok_def user_addr_def
        fresh_def new_capacity_def align_up_def no_room_def lnot_def Let_def)
  have b: "bytes (\<lparr>base = 2, off = 0\<rparr>, 9223372036854775809) \<inter> bytes (\<lparr>base = 2, off = 0\<rparr>, 1) = {0}"
    by (auto simp: bytes_def)
  have n: "\<not> pairwise_disjoint
     [(\<lparr>base = 2, off = 0\<rparr>, 9223372036854775809), (\<lparr>base = 2, off = 0\<rparr>, 0),
      (\<lparr>base = 2, off = 0\<rparr>, 1)]"
    by (simp add: overlap_def bytes_def)
  have a': "list_all alloc_pow2
     [Alloc 1 1 (Some 1) (Some 2), Alloc 1 9223372036854775808 None None,
      Alloc 1 9223372036854775808 None None]" using p63 p1 by simp
  have e': "map_option fst (exec (arena_init heap0)
     [Alloc 1 1 (Some 1) (Some 2), Alloc 1 9223372036854775808 None None,
      Alloc 1 9223372036854775808 None None]) =
     Some [(\<lparr>base = 2, off = 0\<rparr>, 1), (\<lparr>base = 2, off = 9223372036854775808\<rparr>, 1),
           (\<lparr>base = 2, off = 0\<rparr>, 1)]"
    by (simp add: heap0_def arena_init_def raw_arena_alloc_def grow_def bump_def returned_def ptr_addr_def malloc_ok_def user_addr_def
        fresh_def new_capacity_def align_up_def no_room_def lnot_def Let_def)
  have n': "\<not> pairwise_disjoint
     [(\<lparr>base = 2, off = 0\<rparr>, 1), (\<lparr>base = 2, off = 9223372036854775808\<rparr>, 1),
      (\<lparr>base = 2, off = 0\<rparr>, 1)]"
    by (simp add: overlap_def bytes_def)
  from a e b n a' e' n' show ?thesis by (simp only: simp_thms)
qed

text \<open>
  C5.  The claim does not hold of the code: \<open>_arena_alloc\<close> can return \<open>NULL\<close> when no
  \<open>malloc\<close> call has failed, and then the state is not what it was before the call.  (When
  a \<open>malloc\<close> call of the block-creating branch fails, the code does return \<open>NULL\<close> and does
  leave the state as it was: \<open>alloc_fail\<close>.)  A call for which line 20 finds room returns
  \<open>b->data + offset\<close> without calling \<open>malloc\<close>, and line 20 as written,
  \<open>!offset + size > b->capacity\<close>, finds room for every size up to the capacity, whatever
  the offset (see C1).  So the offset of a 4096-byte block grows past the capacity without
  bound: after the calls \<open>climb\<close> it is \<open>2 ^ 64 - 31\<close>, with the buffer at address 16.  In
  that state \<open>_arena_alloc(a, 1, 16)\<close> rounds the offset up to \<open>2 ^ 64 - 16\<close>; the rounded
  offset plus the size exceeds the capacity, yet no block is created and \<open>malloc\<close>, which
  would have succeeded, is not called; the pointer returned has address
  \<open>16 + (2 ^ 64 - 16)\<close>, which is 0 in 64 bits: \<open>NULL\<close>.  And the call has stored the offset
  \<open>2 ^ 64 - 15\<close> in the block.
\<close>

theorem null_without_malloc_failure:
  "reachable far_block \<and> malloc_ok far_block (Some 24) (Some 32) \<and>
   spec_must_grow far_block 1 16 \<and> \<not> must_grow far_block 1 16 \<and>
   raw_arena_alloc far_block 1 16 (Some 24) (Some 32) =
     Some (None,
           far_block\<lparr>blocks := (blocks far_block)(8 \<mapsto>
             \<lparr>data = Some 16, capacity = 4096, offset = 18446744073709551601, nxt = None\<rparr>)\<rparr>) \<and>
   far_block\<lparr>blocks := (blocks far_block)(8 \<mapsto>
     \<lparr>data = Some 16, capacity = 4096, offset = 18446744073709551601, nxt = None\<rparr>)\<rparr> \<noteq> far_block"
proof -
  have ok: "malloc_ok far_block (Some 24) (Some 32)"
    by (simp add: malloc_ok_def user_addr_def fresh_def far_block_def)
  have sg: "spec_must_grow far_block 1 16"
    by (simp add: spec_must_grow_def far_block_def align_up_def)
  have g: "\<not> must_grow far_block 1 16"
    by (simp add: must_grow_def far_block_def align_up_def no_room_def lnot_def)
  have r: "raw_arena_alloc far_block 1 16 (Some 24) (Some 32) =
     Some (None,
           far_block\<lparr>blocks := (blocks far_block)(8 \<mapsto>
             \<lparr>data = Some 16, capacity = 4096, offset = 18446744073709551601, nxt = None\<rparr>)\<rparr>)"
    by (simp add: raw_arena_alloc_def far_block_def bump_def returned_def ptr_addr_def
        align_up_def no_room_def lnot_def)
  have "blocks (far_block\<lparr>blocks := (blocks far_block)(8 \<mapsto>
     \<lparr>data = Some 16, capacity = 4096, offset = 18446744073709551601, nxt = None\<rparr>)\<rparr>) 8
     \<noteq> blocks far_block 8"
    by (simp add: far_block_def)
  then have n: "far_block\<lparr>blocks := (blocks far_block)(8 \<mapsto>
     \<lparr>data = Some 16, capacity = 4096, offset = 18446744073709551601, nxt = None\<rparr>)\<rparr> \<noteq> far_block"
    by metis
  from reachable_far_block ok sg g r n show ?thesis by (simp only: simp_thms)
qed

text \<open>
  C6.  A pointer that \<open>_arena_alloc\<close> returns for a power-of-two \<open>align\<close> starts at an
  offset that is a multiple of \<open>align\<close>, so its address is a multiple of \<open>align\<close> whenever
  the buffer's base address is.  In a new block the offset is 0.  With \<open>align = 1\<close> an
  allocation served from the existing tail block starts exactly at that block's current
  offset: nothing is rounded.
\<close>

theorem alloc_aligned:
  assumes "raw_arena_alloc s sz align m1 m2 = Some (Some p, s')" and "pow2 align"
  shows "unat align dvd unat (off p) \<and>
         (unat align dvd base p \<longrightarrow> unat align dvd base p + unat (off p)) \<and>
         (must_grow s sz align \<longrightarrow> off p = 0) \<and>
         (align = 1 \<and> \<not> must_grow s sz align \<longrightarrow>
            (\<exists>t b. tail (arena s) = Some t \<and> blocks s t = Some b \<and> off p = offset b))"
proof -
  from assms(2) obtain k where k: "k < 64" "align = 2 ^ k" by (auto simp: pow2_def)
  have u: "unat align = 2 ^ k" using k by (simp add: unat_pow2_64)
  have d: "unat align dvd unat (off p)"
    using alloc_off [OF assms(1)] align_up_dvd [of k] k(2) u by auto
  have one: "align = 1 \<Longrightarrow> \<not> must_grow s sz align \<Longrightarrow>
      \<exists>t b. tail (arena s) = Some t \<and> blocks s t = Some b \<and> off p = offset b"
    using alloc_off [OF assms(1)] by (auto simp: align_up_1)
  from d one alloc_off [OF assms(1)] show ?thesis by auto
qed

theorem alloc_aligned_witness:
  "raw_arena_alloc one_block 3 8 None None =
     Some (Some \<lparr>base = 2, off = 5000\<rparr>,
           one_block\<lparr>blocks := (blocks one_block)(1 \<mapsto>
             \<lparr>data = Some 2, capacity = 5000, offset = 5003, nxt = None\<rparr>)\<rparr>) \<and>
   pow2 8 \<and> unat (8 :: size_t) dvd unat (5000 :: size_t)"
proof -
  have r: "raw_arena_alloc one_block 3 8 None None =
     Some (Some \<lparr>base = 2, off = 5000\<rparr>,
           one_block\<lparr>blocks := (blocks one_block)(1 \<mapsto>
             \<lparr>data = Some 2, capacity = 5000, offset = 5003, nxt = None\<rparr>)\<rparr>)"
    by (simp add: raw_arena_alloc_def one_block_def bump_def returned_def ptr_addr_def align_up_def no_room_def lnot_def)
  have p: "pow2 8" unfolding pow2_def by (rule exI [of _ 3]) simp
  from alloc_aligned [OF r p] r p show ?thesis by simp
qed

text \<open>
  C7.  A block that \<open>_arena_alloc\<close> creates has capacity \<open>max size 4096\<close>
  (\<open>alloc_success_block\<close>), but the rest of the claim does not hold of the code, by the
  test of line 20.  With a tail block of capacity 5000 and offset 5000, a request of 4097
  bytes meets no \<open>malloc\<close> failure and is served from that block at offset 5000: the
  pointer is one past the end of the buffer, not into it.  With an unused tail block of
  capacity 4096, a request of \<open>SIZE_MAX\<close> bytes is served from that block, since
  \<open>!offset + size\<close> is \<open>1 + SIZE_MAX\<close>, which wraps around to 0: the block's capacity
  is below the size asked for.
\<close>

theorem large_alloc_outside_block:
  "reachable one_block \<and> (4096 :: size_t) < 4097 \<and>
   blocks one_block 1 = Some \<lparr>data = Some 2, capacity = 5000, offset = 5000, nxt = None\<rparr> \<and>
   raw_arena_alloc one_block 4097 1 None None =
     Some (Some \<lparr>base = 2, off = 5000\<rparr>,
           one_block\<lparr>blocks := (blocks one_block)(1 \<mapsto>
             \<lparr>data = Some 2, capacity = 5000, offset = 9097, nxt = None\<rparr>)\<rparr>) \<and>
   reachable unused_block \<and> 4096 < SIZE_MAX \<and>
   blocks unused_block 1 = Some \<lparr>data = Some 2, capacity = 4096, offset = 0, nxt = None\<rparr> \<and>
   raw_arena_alloc unused_block SIZE_MAX 1 None None =
     Some (Some \<lparr>base = 2, off = 0\<rparr>,
           unused_block\<lparr>blocks := (blocks unused_block)(1 \<mapsto>
             \<lparr>data = Some 2, capacity = 4096, offset = SIZE_MAX, nxt = None\<rparr>)\<rparr>) \<and>
   \<not> SIZE_MAX \<le> 4096"
proof -
  have b1: "blocks one_block 1 = Some \<lparr>data = Some 2, capacity = 5000, offset = 5000, nxt = None\<rparr>"
    by (simp add: one_block_def)
  have r1: "raw_arena_alloc one_block 4097 1 None None =
     Some (Some \<lparr>base = 2, off = 5000\<rparr>,
           one_block\<lparr>blocks := (blocks one_block)(1 \<mapsto>
             \<lparr>data = Some 2, capacity = 5000, offset = 9097, nxt = None\<rparr>)\<rparr>)"
    by (simp add: raw_arena_alloc_def one_block_def bump_def returned_def ptr_addr_def align_up_def no_room_def lnot_def)
  have l: "(4096 :: size_t) < 4097" by simp
  have m: "4096 < SIZE_MAX" by (simp add: SIZE_MAX_def)
  have b2: "blocks unused_block 1 = Some \<lparr>data = Some 2, capacity = 4096, offset = 0, nxt = None\<rparr>"
    by (simp add: unused_block_def)
  have r2: "raw_arena_alloc unused_block SIZE_MAX 1 None None =
     Some (Some \<lparr>base = 2, off = 0\<rparr>,
           unused_block\<lparr>blocks := (blocks unused_block)(1 \<mapsto>
             \<lparr>data = Some 2, capacity = 4096, offset = SIZE_MAX, nxt = None\<rparr>)\<rparr>)"
    by (simp add: raw_arena_alloc_def unused_block_def no_room_def lnot_def align_up_def bump_def returned_def ptr_addr_def
        SIZE_MAX_def)
  from m have n: "\<not> SIZE_MAX \<le> 4096" by (simp only: not_le)
  from reachable_one_block l b1 r1 reachable_unused_block m b2 r2 n show ?thesis
    by (simp only: simp_thms)
qed




text \<open>
  C9.  In every reachable state \<open>arena_deinit\<close> returns, and leaves \<open>head\<close> and \<open>tail\<close>
  null: the state it returns is one that \<open>arena_init\<close> does not change.  A second
  \<open>arena_deinit\<close> right after it walks an empty chain and returns the same state: no
  object is freed a second time.
\<close>

theorem arena_deinit_idempotent:
  assumes "reachable s"
  shows "\<exists>s'. arena_deinit s = Some s' \<and> head (arena s') = None \<and> tail (arena s') = None \<and>
              arena_init s' = s' \<and> arena_deinit s' = Some s'"
proof -
  from assms obtain ps where "arena_inv s ps" by (auto dest: reachable_inv)
  then obtain s' where d: "arena_deinit s = Some s'"
    and a: "arena s' = \<lparr>head = None, tail = None\<rparr>"
    by (auto dest: arena_deinit_total)
  from a have "arena_init s' = s'" by (simp add: arena_init_def)
  with d a arena_deinit_empty [OF a] show ?thesis by simp
qed

theorem arena_deinit_idempotent_witness:
  "reachable one_block \<and>
   arena_deinit one_block = Some heap0 \<and> arena_init heap0 = heap0 \<and>
   arena_deinit heap0 = Some heap0"
proof -
  have d: "arena_deinit one_block = Some heap0"
    by (simp add: arena_deinit_def one_block_def heap0_def free_blocks_Some)
  from arena_deinit_idempotent [OF reachable_one_block] d
  show ?thesis by (simp add: reachable_one_block)
qed

text \<open>
  C10.  \<open>arena_alloc_array(a, type, count)\<close> asks \<open>_arena_alloc\<close> for
  \<open>sizeof(type) * count\<close> bytes computed in \<open>size_t\<close>, that is for the product modulo
  \<open>2 ^ 64\<close>, with no check.  For an 8-byte type and \<open>count = 2 ^ 61 + 1\<close> the request is
  for 8 bytes: the call succeeds on a fresh arena and returns a pointer into a block of
  4096 bytes, far fewer than \<open>count\<close> elements need.
\<close>

theorem arena_alloc_array_wraps:
  "arena_alloc_array s sizeof_type alignof_type count m1 m2 =
     raw_arena_alloc s (word_of_nat ((unat sizeof_type * unat count) mod 2 ^ 64))
       alignof_type m1 m2 \<and>
   (\<exists>sizeof_type alignof_type count p s' b.
      arena_alloc_array (arena_init heap0) sizeof_type alignof_type count (Some 1) (Some 2) =
        Some (Some p, s') \<and>
      blocks s' 1 = Some b \<and> data b = Some (base p) \<and>
      unat (capacity b) < unat sizeof_type * unat count)"
proof
  have u: "unat (sizeof_type * count) = (unat sizeof_type * unat count) mod 2 ^ 64"
    by (simp add: unat_word_ariths)
  have "word_of_nat (unat (sizeof_type * count)) = sizeof_type * count"
    by simp
  then have "word_of_nat ((unat sizeof_type * unat count) mod 2 ^ 64) = sizeof_type * count"
    by (simp only: u)
  then show "arena_alloc_array s sizeof_type alignof_type count m1 m2 =
     raw_arena_alloc s (word_of_nat ((unat sizeof_type * unat count) mod 2 ^ 64))
       alignof_type m1 m2"
    by (simp add: arena_alloc_array_def)
next
  have "arena_alloc_array (arena_init heap0) 8 8 (2 ^ 61 + 1) (Some 1) (Some 2) =
          Some (Some \<lparr>base = 2, off = 0\<rparr>,
            \<lparr>arena = \<lparr>head = Some 1, tail = Some 1\<rparr>,
             blocks = (\<lambda>_. None)(1 \<mapsto>
               \<lparr>data = Some 2, capacity = 4096, offset = 8, nxt = None\<rparr>),
             bufs = (\<lambda>_. None)(2 \<mapsto> 4096)\<rparr>)"
  proof -
    have w: "(8 :: size_t) * (2 ^ 61 + 1) = 8" by simp
    show ?thesis
      unfolding arena_alloc_array_def w
      by (simp add: heap0_def arena_init_def raw_arena_alloc_def grow_def bump_def returned_def ptr_addr_def
          new_capacity_def Let_def)
  qed
  moreover have "unat (4096 :: size_t) < unat (8 :: size_t) * unat (2 ^ 61 + 1 :: size_t)"
    by simp
  ultimately show "\<exists>sizeof_type alignof_type count p s' b.
      arena_alloc_array (arena_init heap0) sizeof_type alignof_type count (Some 1) (Some 2) =
        Some (Some p, s') \<and>
      blocks s' 1 = Some b \<and> data b = Some (base p) \<and>
      unat (capacity b) < unat sizeof_type * unat count"
    by (intro exI [of _ 8] exI [of _ "2 ^ 61 + 1"] exI [of _ "\<lparr>base = 2, off = 0\<rparr>"] exI conjI)
       (assumption | simp)+
qed

end
